theory Spec2Isabelle
  imports Complex_Main
begin

section \<open>Arithmetic and memory model\<close>

text \<open>
  The kernels are C functions over \<^verbatim>\<open>float\<close> buffers, written with ARM NEON intrinsics.
  The embedding is polymorphic in the sample type \<open>'a\<close>: the single-precision operations
  \<^verbatim>\<open>+\<close>, \<^verbatim>\<open>-\<close>, \<^verbatim>\<open>*\<close> and negation are the operations of the purely syntactic classes
  \<open>plus\<close>, \<open>minus\<close>, \<open>times\<close>, \<open>uminus\<close>, which carry no law at all. Two results are
  therefore equal only when they are built by the same operations on the same operands in
  the same order. Where a statement needs an identity of the arithmetic (such as
  \<open>x * 1 = x\<close>), it is a hypothesis of that statement. Each C operator and each intrinsic
  is one operation: where the rounding of a plain C expression is left to the compiler
  (the contraction of \<^verbatim>\<open>a * b + c * d\<close> into a fused multiply-add), the statements are
  about the formula computed, not about the bits of one build.

  A C \<^verbatim>\<open>int\<close> is a HOL \<open>int\<close>: the index expressions are read at their mathematical
  value (signed overflow is undefined in C). A buffer is a store from the offset relative
  to its base pointer to the element there; the buffers passed to one call are distinct
  objects (the trig and twiddle tables are \<^verbatim>\<open>const\<close> and never written).
\<close>

type_synonym 'a float32x2 = "'a \<times> 'a"
type_synonym 'a float32x4 = "'a \<times> 'a \<times> 'a \<times> 'a"
type_synonym 'a mem = "int \<Rightarrow> 'a"

subsection \<open>NEON intrinsics, lane by lane\<close>

definition vdup_n_f32 :: "'a \<Rightarrow> 'a float32x2" where
  "vdup_n_f32 x = (x, x)"

fun vset_lane_f32 :: "'a \<Rightarrow> 'a float32x2 \<Rightarrow> nat \<Rightarrow> 'a float32x2" where
  "vset_lane_f32 x (a0, a1) lane = (if lane = 0 then (x, a1) else (a0, x))"

fun vdup_lane_f32 :: "'a float32x2 \<Rightarrow> nat \<Rightarrow> 'a float32x2" where
  "vdup_lane_f32 (a0, a1) lane = (if lane = 0 then (a0, a0) else (a1, a1))"

definition vld1_f32 :: "'a mem \<Rightarrow> int \<Rightarrow> 'a float32x2" where
  "vld1_f32 m p = (m p, m (p + 1))"

definition vld1q_f32 :: "'a mem \<Rightarrow> int \<Rightarrow> 'a float32x4" where
  "vld1q_f32 m p = (m p, m (p + 1), m (p + 2), m (p + 3))"

fun vst1_f32 :: "'a mem \<Rightarrow> int \<Rightarrow> 'a float32x2 \<Rightarrow> 'a mem" where
  "vst1_f32 m p (a0, a1) = m(p := a0, p + 1 := a1)"

fun vst1q_f32 :: "'a mem \<Rightarrow> int \<Rightarrow> 'a float32x4 \<Rightarrow> 'a mem" where
  "vst1q_f32 m p (a0, a1, a2, a3) = m(p := a0, p + 1 := a1, p + 2 := a2, p + 3 := a3)"

fun vadd_f32 :: "'a::plus float32x2 \<Rightarrow> 'a float32x2 \<Rightarrow> 'a float32x2" where
  "vadd_f32 (a0, a1) (b0, b1) = (a0 + b0, a1 + b1)"

fun vsub_f32 :: "'a::minus float32x2 \<Rightarrow> 'a float32x2 \<Rightarrow> 'a float32x2" where
  "vsub_f32 (a0, a1) (b0, b1) = (a0 - b0, a1 - b1)"

fun vmul_f32 :: "'a::times float32x2 \<Rightarrow> 'a float32x2 \<Rightarrow> 'a float32x2" where
  "vmul_f32 (a0, a1) (b0, b1) = (a0 * b0, a1 * b1)"

fun vneg_f32 :: "'a::uminus float32x2 \<Rightarrow> 'a float32x2" where
  "vneg_f32 (a0, a1) = (- a0, - a1)"

text \<open>\<^verbatim>\<open>vmla_f32(a, b, c)\<close> is the unfused multiply-accumulate \<open>a + b * c\<close>.\<close>

fun vmla_f32 :: "'a::{plus,times} float32x2 \<Rightarrow> 'a float32x2 \<Rightarrow> 'a float32x2 \<Rightarrow> 'a float32x2" where
  "vmla_f32 (a0, a1) (b0, b1) (c0, c1) = (a0 + b0 * c0, a1 + b1 * c1)"

fun vaddq_f32 :: "'a::plus float32x4 \<Rightarrow> 'a float32x4 \<Rightarrow> 'a float32x4" where
  "vaddq_f32 (a0, a1, a2, a3) (b0, b1, b2, b3) = (a0 + b0, a1 + b1, a2 + b2, a3 + b3)"

fun vsubq_f32 :: "'a::minus float32x4 \<Rightarrow> 'a float32x4 \<Rightarrow> 'a float32x4" where
  "vsubq_f32 (a0, a1, a2, a3) (b0, b1, b2, b3) = (a0 - b0, a1 - b1, a2 - b2, a3 - b3)"

fun vmulq_f32 :: "'a::times float32x4 \<Rightarrow> 'a float32x4 \<Rightarrow> 'a float32x4" where
  "vmulq_f32 (a0, a1, a2, a3) (b0, b1, b2, b3) = (a0 * b0, a1 * b1, a2 * b2, a3 * b3)"

fun vrev64_f32 :: "'a float32x2 \<Rightarrow> 'a float32x2" where
  "vrev64_f32 (a0, a1) = (a1, a0)"

fun vrev64q_f32 :: "'a float32x4 \<Rightarrow> 'a float32x4" where
  "vrev64q_f32 (a0, a1, a2, a3) = (a1, a0, a3, a2)"

text \<open>\<^verbatim>\<open>vzip_f32\<close> returns the pair \<^verbatim>\<open>val[0]\<close>, \<^verbatim>\<open>val[1]\<close> of a \<^verbatim>\<open>float32x2x2_t\<close>.\<close>

fun vzip_f32 :: "'a float32x2 \<Rightarrow> 'a float32x2 \<Rightarrow> 'a float32x2 \<times> 'a float32x2" where
  "vzip_f32 (a0, a1) (b0, b1) = ((a0, b0), (a1, b1))"

fun vcombine_f32 :: "'a float32x2 \<Rightarrow> 'a float32x2 \<Rightarrow> 'a float32x4" where
  "vcombine_f32 (a0, a1) (b0, b1) = (a0, a1, b0, b1)"

fun vget_low_f32 :: "'a float32x4 \<Rightarrow> 'a float32x2" where
  "vget_low_f32 (a0, a1, a2, a3) = (a0, a1)"

fun vget_high_f32 :: "'a float32x4 \<Rightarrow> 'a float32x2" where
  "vget_high_f32 (a0, a1, a2, a3) = (a2, a3)"

fun vuzp1q_f32 :: "'a float32x4 \<Rightarrow> 'a float32x4 \<Rightarrow> 'a float32x4" where
  "vuzp1q_f32 (a0, a1, a2, a3) (b0, b1, b2, b3) = (a0, a2, b0, b2)"

fun vuzp2q_f32 :: "'a float32x4 \<Rightarrow> 'a float32x4 \<Rightarrow> 'a float32x4" where
  "vuzp2q_f32 (a0, a1, a2, a3) (b0, b1, b2, b3) = (a1, a3, b1, b3)"

text \<open>\<^verbatim>\<open>vextq_f32(a, b, 2)\<close>: the upper half of \<open>a\<close> followed by the lower half of \<open>b\<close>.\<close>

fun vextq_f32_2 :: "'a float32x4 \<Rightarrow> 'a float32x4 \<Rightarrow> 'a float32x4" where
  "vextq_f32_2 (a0, a1, a2, a3) (b0, b1, b2, b3) = (a2, a3, b0, b1)"

text \<open>
  \<^verbatim>\<open>vreinterpret_f32_u32(veor_u32(vreinterpret_u32_f32(x), mask))\<close> with a mask whose lanes
  are \<^verbatim>\<open>0\<close> or \<^verbatim>\<open>0x80000000\<close>: the sign bit of a lane is flipped where the mask lane is
  \<^verbatim>\<open>0x80000000\<close> (given here as \<open>True\<close>), which negates that lane.
\<close>

fun veor_sign_f32 :: "'a::uminus float32x2 \<Rightarrow> bool \<times> bool \<Rightarrow> 'a float32x2" where
  "veor_sign_f32 (a0, a1) (s0, s1) = ((if s0 then - a0 else a0), (if s1 then - a1 else a1))"

section \<open>IMDCT prerotation\<close>

text \<open>
  \<^verbatim>\<open>imdct_prerotate_f32(out, spec, trig, n2, n4)\<close>. \<open>narrow\<close> is the conversion
  \<^verbatim>\<open>(float)\<close> of a \<^verbatim>\<open>double\<close>.
\<close>

definition pre_vec_body ::
  "('d \<Rightarrow> 'a::{plus,minus,times}) \<Rightarrow> 'd mem \<Rightarrow> 'a mem \<Rightarrow> int \<Rightarrow> int \<Rightarrow> int \<Rightarrow> 'a mem \<Rightarrow> 'a mem" where
  "pre_vec_body narrow spec trig n2 n4 i out =
    (let front = 2 * i;
         back = n2 - 1 - 2 * i;
         x1 = vdup_n_f32 (narrow (spec front));
         x1 = vset_lane_f32 (narrow (spec (front + 2))) x1 1;
         x2 = vdup_n_f32 (narrow (spec back));
         x2 = vset_lane_f32 (narrow (spec (back - 2))) x2 1;
         t0 = vld1_f32 trig i;
         t1 = vld1_f32 trig (n4 + i);
         yr = vadd_f32 (vmul_f32 x2 t0) (vmul_f32 x1 t1);
         yi = vsub_f32 (vmul_f32 x1 t0) (vmul_f32 x2 t1);
         zip = vzip_f32 yi yr;
         outv = vcombine_f32 (fst zip) (snd zip)
     in vst1q_f32 out (2 * i) outv)"

function pre_vec_loop ::
  "('d \<Rightarrow> 'a::{plus,minus,times}) \<Rightarrow> 'd mem \<Rightarrow> 'a mem \<Rightarrow> int \<Rightarrow> int \<Rightarrow> int \<Rightarrow> 'a mem \<Rightarrow> int \<times> 'a mem" where
  "pre_vec_loop narrow spec trig n2 n4 i out =
    (if i + 1 < n4
     then pre_vec_loop narrow spec trig n2 n4 (i + 2) (pre_vec_body narrow spec trig n2 n4 i out)
     else (i, out))"
  by pat_completeness auto
termination
  by (relation "measure (\<lambda>(narrow, spec, trig, n2, n4, i, out). nat (n4 - i))") auto

definition pre_scalar_body ::
  "('d \<Rightarrow> 'a::{plus,minus,times}) \<Rightarrow> 'd mem \<Rightarrow> 'a mem \<Rightarrow> int \<Rightarrow> int \<Rightarrow> int \<Rightarrow> 'a mem \<Rightarrow> 'a mem" where
  "pre_scalar_body narrow spec trig n2 n4 i out =
    (let x1 = narrow (spec (2 * i));
         x2 = narrow (spec (n2 - 1 - 2 * i));
         t0 = trig i;
         t1 = trig (n4 + i);
         yr = x2 * t0 + x1 * t1;
         yi = x1 * t0 - x2 * t1;
         out = out(2 * i := yi)
     in out(2 * i + 1 := yr))"

function pre_scalar_loop ::
  "('d \<Rightarrow> 'a::{plus,minus,times}) \<Rightarrow> 'd mem \<Rightarrow> 'a mem \<Rightarrow> int \<Rightarrow> int \<Rightarrow> int \<Rightarrow> 'a mem \<Rightarrow> 'a mem" where
  "pre_scalar_loop narrow spec trig n2 n4 i out =
    (if i < n4
     then pre_scalar_loop narrow spec trig n2 n4 (i + 1) (pre_scalar_body narrow spec trig n2 n4 i out)
     else out)"
  by pat_completeness auto
termination
  by (relation "measure (\<lambda>(narrow, spec, trig, n2, n4, i, out). nat (n4 - i))") auto

definition imdct_prerotate_f32 ::
  "('d \<Rightarrow> 'a::{plus,minus,times}) \<Rightarrow> 'a mem \<Rightarrow> 'd mem \<Rightarrow> 'a mem \<Rightarrow> int \<Rightarrow> int \<Rightarrow> 'a mem" where
  "imdct_prerotate_f32 narrow out spec trig n2 n4 =
    (if n4 \<le> 0 then out
     else (case pre_vec_loop narrow spec trig n2 n4 0 out of
             (i, out') \<Rightarrow> pre_scalar_loop narrow spec trig n2 n4 i out'))"

declare pre_vec_loop.simps [simp del]
declare pre_scalar_loop.simps [simp del]

section \<open>IMDCT postrotation\<close>

text \<open>
  \<^verbatim>\<open>imdct_postrotate_f32(buf, trig, n2, n4)\<close>. The locals \<^verbatim>\<open>i\<close>, \<^verbatim>\<open>yp0\<close>, \<^verbatim>\<open>yp1\<close> are
  threaded through both loops; \<^verbatim>\<open>(n4 + 1) >> 1\<close> is the arithmetic shift, \<open>(n4 + 1) div 2\<close>.
\<close>

definition post_vec_body :: "'a::{plus,minus,times} mem \<Rightarrow> int \<Rightarrow> int \<Rightarrow> int \<Rightarrow> int \<Rightarrow> int \<Rightarrow> 'a mem \<Rightarrow> 'a mem" where
  "post_vec_body trig n2 n4 i yp0 yp1 buf =
    (let vlow = vld1q_f32 buf yp0;
         vhi = vld1q_f32 buf (yp1 - 2);
         low_im = vget_low_f32 (vuzp1q_f32 vlow vlow);
         low_re = vget_low_f32 (vuzp2q_f32 vlow vlow);
         high_im = vget_low_f32 (vuzp1q_f32 vhi vhi);
         high_re = vget_low_f32 (vuzp2q_f32 vhi vhi);
         high_im = vrev64_f32 high_im;
         high_re = vrev64_f32 high_re;
         t0 = vld1_f32 trig i;
         t1 = vld1_f32 trig (n4 + i);
         t0b = vld1_f32 trig (n4 - i - 2);
         t1b = vld1_f32 trig (n2 - i - 2);
         t0b = vrev64_f32 t0b;
         t1b = vrev64_f32 t1b;
         low_yr = vadd_f32 (vmul_f32 low_re t0) (vmul_f32 low_im t1);
         low_yi = vsub_f32 (vmul_f32 low_re t1) (vmul_f32 low_im t0);
         high_yr = vadd_f32 (vmul_f32 high_re t0b) (vmul_f32 high_im t1b);
         high_yi = vsub_f32 (vmul_f32 high_re t1b) (vmul_f32 high_im t0b);
         zip0 = vzip_f32 low_yr high_yi;
         out_lo = vcombine_f32 (fst zip0) (snd zip0);
         zip1 = vzip_f32 high_yr low_yi;
         out_hi = vcombine_f32 (snd zip1) (fst zip1);
         buf = vst1q_f32 buf yp0 out_lo
     in vst1q_f32 buf (yp1 - 2) out_hi)"

function post_vec_loop ::
  "'a::{plus,minus,times} mem \<Rightarrow> int \<Rightarrow> int \<Rightarrow> int \<Rightarrow> int \<Rightarrow> int \<Rightarrow> int \<Rightarrow> 'a mem \<Rightarrow> int \<times> int \<times> int \<times> 'a mem" where
  "post_vec_loop trig n2 n4 limit i yp0 yp1 buf =
    (if i + 1 < limit
     then post_vec_loop trig n2 n4 limit (i + 2) (yp0 + 4) (yp1 - 4) (post_vec_body trig n2 n4 i yp0 yp1 buf)
     else (i, yp0, yp1, buf))"
  by pat_completeness auto
termination
  by (relation "measure (\<lambda>(trig, n2, n4, limit, i, yp0, yp1, buf). nat (limit - i))") auto

definition post_scalar_body :: "'a::{plus,minus,times} mem \<Rightarrow> int \<Rightarrow> int \<Rightarrow> int \<Rightarrow> int \<Rightarrow> int \<Rightarrow> 'a mem \<Rightarrow> 'a mem" where
  "post_scalar_body trig n2 n4 i yp0 yp1 buf =
    (let re = buf (yp0 + 1);
         im = buf yp0;
         t0 = trig i;
         t1 = trig (n4 + i);
         yr = re * t0 + im * t1;
         yi = re * t1 - im * t0;
         re2 = buf (yp1 + 1);
         im2 = buf yp1;
         buf = buf(yp0 := yr);
         buf = buf(yp1 + 1 := yi);
         t0 = trig (n4 - i - 1);
         t1 = trig (n2 - i - 1);
         yr = re2 * t0 + im2 * t1;
         yi = re2 * t1 - im2 * t0;
         buf = buf(yp1 := yr)
     in buf(yp0 + 1 := yi))"

function post_scalar_loop ::
  "'a::{plus,minus,times} mem \<Rightarrow> int \<Rightarrow> int \<Rightarrow> int \<Rightarrow> int \<Rightarrow> int \<Rightarrow> int \<Rightarrow> 'a mem \<Rightarrow> int \<times> int \<times> int \<times> 'a mem" where
  "post_scalar_loop trig n2 n4 limit i yp0 yp1 buf =
    (if i < limit
     then post_scalar_loop trig n2 n4 limit (i + 1) (yp0 + 2) (yp1 - 2) (post_scalar_body trig n2 n4 i yp0 yp1 buf)
     else (i, yp0, yp1, buf))"
  by pat_completeness auto
termination
  by (relation "measure (\<lambda>(trig, n2, n4, limit, i, yp0, yp1, buf). nat (limit - i))") auto

text \<open>The two loops in sequence, from \<^verbatim>\<open>yp0 = 0\<close>, \<^verbatim>\<open>yp1 = n2 - 2\<close>, \<^verbatim>\<open>i = 0\<close>: the locals and
  the buffer when the second loop is left.\<close>

definition postrotate_loops ::
  "'a::{plus,minus,times} mem \<Rightarrow> int \<Rightarrow> int \<Rightarrow> int \<Rightarrow> 'a mem \<Rightarrow> int \<times> int \<times> int \<times> 'a mem" where
  "postrotate_loops trig n2 n4 limit buf =
    (case post_vec_loop trig n2 n4 limit 0 0 (n2 - 2) buf of
       (i, yp0, yp1, buf') \<Rightarrow> post_scalar_loop trig n2 n4 limit i yp0 yp1 buf')"

definition imdct_postrotate_f32 :: "'a::{plus,minus,times} mem \<Rightarrow> 'a mem \<Rightarrow> int \<Rightarrow> int \<Rightarrow> 'a mem" where
  "imdct_postrotate_f32 buf trig n2 n4 =
    (let limit = (n4 + 1) div 2
     in if limit \<le> 0 then buf
        else (case postrotate_loops trig n2 n4 limit buf of (i, yp0, yp1, buf') \<Rightarrow> buf'))"

declare post_vec_loop.simps [simp del]
declare post_scalar_loop.simps [simp del]

section \<open>Complex samples\<close>

text \<open>
  \<^verbatim>\<open>typedef struct { float r; float i; } kissCpx\<close>. An array of \<^verbatim>\<open>kissCpx\<close> is a store
  indexed by the element. The kernels read and write it through \<^verbatim>\<open>float\<close> pointers:
  \<^verbatim>\<open>vld1_f32((const float *)&f[k])\<close> yields the lanes \<open>(r, i)\<close> of element \<open>k\<close>, and
  \<^verbatim>\<open>vld1q_f32((const float *)&f[k])\<close> those of the elements \<open>k\<close> and \<open>k + 1\<close>.
\<close>

datatype 'a kissCpx = KissCpx (cpx_r: 'a) (cpx_i: 'a)

definition ld_cpx :: "'a kissCpx mem \<Rightarrow> int \<Rightarrow> 'a float32x2" where
  "ld_cpx f k = (cpx_r (f k), cpx_i (f k))"

definition ldq_cpx :: "'a kissCpx mem \<Rightarrow> int \<Rightarrow> 'a float32x4" where
  "ldq_cpx f k = (cpx_r (f k), cpx_i (f k), cpx_r (f (k + 1)), cpx_i (f (k + 1)))"

fun st_cpx :: "'a kissCpx mem \<Rightarrow> int \<Rightarrow> 'a float32x2 \<Rightarrow> 'a kissCpx mem" where
  "st_cpx f k (a0, a1) = f(k := KissCpx a0 a1)"

fun stq_cpx :: "'a kissCpx mem \<Rightarrow> int \<Rightarrow> 'a float32x4 \<Rightarrow> 'a kissCpx mem" where
  "stq_cpx f k (a0, a1, a2, a3) = f(k := KissCpx a0 a1, k + 1 := KissCpx a2 a3)"

section \<open>Radix-3 butterfly, m = 1\<close>

text \<open>\<^verbatim>\<open>kf_bfly3_m1(fout, tw, fstride, n, mm)\<close>. The literal \<^verbatim>\<open>0.5f\<close> is \<open>1 / (1 + 1)\<close>.\<close>

definition bfly3_body ::
  "'a::{plus,minus,times} float32x2 \<Rightarrow> 'a float32x2 \<Rightarrow> 'a float32x2 \<Rightarrow> int \<Rightarrow> int \<Rightarrow> 'a kissCpx mem \<Rightarrow> 'a kissCpx mem" where
  "bfly3_body epi half sign mm i fout =
    (let f = i * mm;
         f0 = ld_cpx fout f;
         f1 = ld_cpx fout (f + 1);
         f2 = ld_cpx fout (f + 2);
         scratch3 = vadd_f32 f1 f2;
         scratch0 = vsub_f32 f1 f2;
         f1out = vsub_f32 f0 (vmul_f32 scratch3 half);
         scratch0 = vmul_f32 scratch0 epi;
         f0 = vadd_f32 f0 scratch3;
         scratch0swap = vrev64_f32 scratch0;
         scratch0rot = vmul_f32 scratch0swap sign;
         f2out = vadd_f32 f1out scratch0rot;
         f1out = vsub_f32 f1out scratch0rot;
         fout = st_cpx fout f f0;
         fout = st_cpx fout (f + 1) f1out
     in st_cpx fout (f + 2) f2out)"

function bfly3_loop ::
  "'a::{plus,minus,times} float32x2 \<Rightarrow> 'a float32x2 \<Rightarrow> 'a float32x2 \<Rightarrow> int \<Rightarrow> int \<Rightarrow> int \<Rightarrow> 'a kissCpx mem \<Rightarrow> 'a kissCpx mem" where
  "bfly3_loop epi half sign n mm i fout =
    (if i < n then bfly3_loop epi half sign n mm (i + 1) (bfly3_body epi half sign mm i fout)
     else fout)"
  by pat_completeness auto
termination
  by (relation "measure (\<lambda>(epi, half, sign, n, mm, i, fout). nat (n - i))") auto

definition kf_bfly3_m1 ::
  "'a::{plus,minus,times,uminus,one,inverse} kissCpx mem \<Rightarrow> 'a kissCpx mem \<Rightarrow> int \<Rightarrow> int \<Rightarrow> int \<Rightarrow> 'a kissCpx mem" where
  "kf_bfly3_m1 fout tw fstride n mm =
    (if n \<le> 0 then fout
     else let epi = vdup_n_f32 (cpx_i (tw fstride));
              half = vdup_n_f32 (1 / (1 + 1));
              sign = (1, - 1)
          in bfly3_loop epi half sign n mm 0 fout)"

declare bfly3_loop.simps [simp del]

section \<open>Radix-4 butterfly, m = 1\<close>

text \<open>\<^verbatim>\<open>kf_bfly4_m1(fout, n)\<close>. The pointer \<^verbatim>\<open>fout\<close> advances by 4 elements per iteration;
  \<open>p\<close> is its offset from the buffer's base.\<close>

definition bfly4_m1_body :: "int \<Rightarrow> 'a::{plus,minus,uminus} kissCpx mem \<Rightarrow> 'a kissCpx mem" where
  "bfly4_m1_body p fout =
    (let a = ldq_cpx fout p;
         b = ldq_cpx fout (p + 2);
         t0 = vaddq_f32 a b;
         t1 = vsubq_f32 a b;
         t0swap = vextq_f32_2 t0 t0;
         aout = vaddq_f32 t0 t0swap;
         cout = vsubq_f32 t0 t0swap;
         s0 = vget_low_f32 t1;
         s1 = vget_high_f32 t1;
         s1swap = vrev64_f32 s1;
         signpos = (False, True);
         signneg = (True, False);
         rotpos = veor_sign_f32 s1swap signpos;
         rotneg = veor_sign_f32 s1swap signneg;
         bout = vadd_f32 s0 rotpos;
         dout = vadd_f32 s0 rotneg;
         out0 = vcombine_f32 (vget_low_f32 aout) bout;
         out1 = vcombine_f32 (vget_low_f32 cout) dout;
         fout = stq_cpx fout p out0
     in stq_cpx fout (p + 2) out1)"

function bfly4_m1_loop :: "int \<Rightarrow> int \<Rightarrow> int \<Rightarrow> 'a::{plus,minus,uminus} kissCpx mem \<Rightarrow> 'a kissCpx mem" where
  "bfly4_m1_loop n i p fout =
    (if i < n then bfly4_m1_loop n (i + 1) (p + 4) (bfly4_m1_body p fout) else fout)"
  by pat_completeness auto
termination
  by (relation "measure (\<lambda>(n, i, p, fout). nat (n - i))") auto

definition kf_bfly4_m1 :: "'a::{plus,minus,uminus} kissCpx mem \<Rightarrow> int \<Rightarrow> 'a kissCpx mem" where
  "kf_bfly4_m1 fout n = bfly4_m1_loop n 0 0 fout"

declare bfly4_m1_loop.simps [simp del]

section \<open>Radix-4 butterfly, general m\<close>

fun cmul2 :: "'a::{plus,times,uminus,one} float32x2 \<Rightarrow> 'a float32x2 \<Rightarrow> 'a float32x2" where
  "cmul2 a b =
    (let br = vdup_lane_f32 b 0;
         bi = vdup_lane_f32 b 1;
         a_sw = vrev64_f32 a;
         t0 = vmul_f32 a br;
         t1 = vmul_f32 a_sw bi;
         sign = (- 1, 1);
         t1 = vmul_f32 t1 sign
     in vadd_f32 t0 t1)"

fun cmul2x :: "'a::{plus,times,uminus,one} float32x4 \<Rightarrow> 'a float32x4 \<Rightarrow> 'a float32x4" where
  "cmul2x a b =
    (let bl = vget_low_f32 b;
         bh = vget_high_f32 b;
         br = vcombine_f32 (vdup_lane_f32 bl 0) (vdup_lane_f32 bh 0);
         bi = vcombine_f32 (vdup_lane_f32 bl 1) (vdup_lane_f32 bh 1);
         a_sw = vrev64q_f32 a;
         t0 = vmulq_f32 a br;
         t1 = vmulq_f32 a_sw bi;
         sign = (- 1, 1, - 1, 1);
         t1 = vmulq_f32 t1 sign
     in vaddq_f32 t0 t1)"

definition cadd2 :: "'a::plus float32x2 \<Rightarrow> 'a float32x2 \<Rightarrow> 'a float32x2" where
  "cadd2 a b = vadd_f32 a b"

definition csub2 :: "'a::minus float32x2 \<Rightarrow> 'a float32x2 \<Rightarrow> 'a float32x2" where
  "csub2 a b = vsub_f32 a b"

text \<open>
  \<^verbatim>\<open>kf_bfly4_mx(fout, tw, m, n, fstride, mm)\<close>. \<open>f\<close> is the offset of the pointer \<^verbatim>\<open>f\<close>
  from \<^verbatim>\<open>foutBeg\<close>. The body of the pair loop of the \<^verbatim>\<open>fstride == 1\<close> path:
\<close>

definition bfly4_pair_body ::
  "'a::{plus,minus,times,uminus,one} kissCpx mem \<Rightarrow> int \<Rightarrow> int \<Rightarrow> int \<Rightarrow> int \<Rightarrow> int \<Rightarrow> 'a kissCpx mem \<Rightarrow> 'a kissCpx mem" where
  "bfly4_pair_body tw m f tw1 tw2 tw3 fout =
    (let sign4 = (- 1, 1, - 1, 1);
         f0 = ldq_cpx fout f;
         f1 = ldq_cpx fout (f + m);
         f2 = ldq_cpx fout (f + 2 * m);
         f3 = ldq_cpx fout (f + 3 * m);
         tw1v = ldq_cpx tw tw1;
         tw2a = ld_cpx tw tw2;
         tw2b = ld_cpx tw (tw2 + 2);
         tw2v = vcombine_f32 tw2a tw2b;
         tw3a = ld_cpx tw tw3;
         tw3b = ld_cpx tw (tw3 + 3);
         tw3v = vcombine_f32 tw3a tw3b;
         scratch0 = cmul2x f1 tw1v;
         scratch1 = cmul2x f2 tw2v;
         scratch2 = cmul2x f3 tw3v;
         scratch5 = vsubq_f32 f0 scratch1;
         f0 = vaddq_f32 f0 scratch1;
         scratch3 = vaddq_f32 scratch0 scratch2;
         scratch4 = vsubq_f32 scratch0 scratch2;
         f2out = vsubq_f32 f0 scratch3;
         f0 = vaddq_f32 f0 scratch3;
         sc4swap = vrev64q_f32 scratch4;
         sc4i = vmulq_f32 sc4swap sign4;
         fmout = vsubq_f32 scratch5 sc4i;
         f3out = vaddq_f32 scratch5 sc4i;
         fout = stq_cpx fout f f0;
         fout = stq_cpx fout (f + m) fmout;
         fout = stq_cpx fout (f + 2 * m) f2out
     in stq_cpx fout (f + 3 * m) f3out)"

text \<open>The body of the one-position loops: the scalar remainder of the \<^verbatim>\<open>fstride == 1\<close> path
  and the loop of the general path have the same text up to the twiddle increments.\<close>

definition bfly4_single_body ::
  "'a::{plus,minus,times,uminus,one} kissCpx mem \<Rightarrow> int \<Rightarrow> int \<Rightarrow> int \<Rightarrow> int \<Rightarrow> int \<Rightarrow> 'a kissCpx mem \<Rightarrow> 'a kissCpx mem" where
  "bfly4_single_body tw m f tw1 tw2 tw3 fout =
    (let f0 = ld_cpx fout f;
         f1 = ld_cpx fout (f + m);
         f2 = ld_cpx fout (f + 2 * m);
         f3 = ld_cpx fout (f + 3 * m);
         tw1v = ld_cpx tw tw1;
         tw2v = ld_cpx tw tw2;
         tw3v = ld_cpx tw tw3;
         scratch0 = cmul2 f1 tw1v;
         scratch1 = cmul2 f2 tw2v;
         scratch2 = cmul2 f3 tw3v;
         scratch5 = csub2 f0 scratch1;
         f0 = cadd2 f0 scratch1;
         scratch3 = cadd2 scratch0 scratch2;
         scratch4 = csub2 scratch0 scratch2;
         f2out = csub2 f0 scratch3;
         f0 = cadd2 f0 scratch3;
         sc4swap = vrev64_f32 scratch4;
         sign2 = (- 1, 1);
         sc4i = vmul_f32 sc4swap sign2;
         fmout = csub2 scratch5 sc4i;
         f3out = cadd2 scratch5 sc4i;
         fout = st_cpx fout f f0;
         fout = st_cpx fout (f + m) fmout;
         fout = st_cpx fout (f + 2 * m) f2out
     in st_cpx fout (f + 3 * m) f3out)"

function bfly4_pair_loop ::
  "'a::{plus,minus,times,uminus,one} kissCpx mem \<Rightarrow> int \<Rightarrow> int \<Rightarrow> int \<Rightarrow> int \<Rightarrow> int \<Rightarrow> int \<Rightarrow> 'a kissCpx mem
    \<Rightarrow> int \<times> int \<times> int \<times> int \<times> int \<times> 'a kissCpx mem" where
  "bfly4_pair_loop tw m j f tw1 tw2 tw3 fout =
    (if j + 1 < m
     then bfly4_pair_loop tw m (j + 2) (f + 2) (tw1 + 2) (tw2 + 4) (tw3 + 6)
            (bfly4_pair_body tw m f tw1 tw2 tw3 fout)
     else (j, f, tw1, tw2, tw3, fout))"
  by pat_completeness auto
termination
  by (relation "measure (\<lambda>(tw, m, j, f, tw1, tw2, tw3, fout). nat (m - j))") auto

text \<open>The one-position loop, with the twiddle increment \<open>s\<close>: \<open>1\<close> in the remainder loop of
  the fast path (\<^verbatim>\<open>tw1 += 1; tw2 += 2; tw3 += 3\<close>), \<^verbatim>\<open>fstride\<close> in the general path
  (\<^verbatim>\<open>tw1 += fstride; tw2 += fstride * 2; tw3 += fstride * 3\<close>).\<close>

function bfly4_single_loop ::
  "'a::{plus,minus,times,uminus,one} kissCpx mem \<Rightarrow> int \<Rightarrow> int \<Rightarrow> int \<Rightarrow> int \<Rightarrow> int \<Rightarrow> int \<Rightarrow> int \<Rightarrow> 'a kissCpx mem
    \<Rightarrow> 'a kissCpx mem" where
  "bfly4_single_loop tw m s j f tw1 tw2 tw3 fout =
    (if j < m
     then bfly4_single_loop tw m s (j + 1) (f + 1) (tw1 + s) (tw2 + s * 2) (tw3 + s * 3)
            (bfly4_single_body tw m f tw1 tw2 tw3 fout)
     else fout)"
  by pat_completeness auto
termination
  by (relation "measure (\<lambda>(tw, m, s, j, f, tw1, tw2, tw3, fout). nat (m - j))") auto

text \<open>One group of the \<^verbatim>\<open>fstride == 1\<close> path and of the general path.\<close>

definition bfly4_fast_group ::
  "'a::{plus,minus,times,uminus,one} kissCpx mem \<Rightarrow> int \<Rightarrow> int \<Rightarrow> int \<Rightarrow> 'a kissCpx mem \<Rightarrow> 'a kissCpx mem" where
  "bfly4_fast_group tw m mm i fout =
    (case bfly4_pair_loop tw m 0 (i * mm) 0 0 0 fout of
       (j, f, tw1, tw2, tw3, fout') \<Rightarrow> bfly4_single_loop tw m 1 j f tw1 tw2 tw3 fout')"

definition bfly4_general_group ::
  "'a::{plus,minus,times,uminus,one} kissCpx mem \<Rightarrow> int \<Rightarrow> int \<Rightarrow> int \<Rightarrow> int \<Rightarrow> 'a kissCpx mem \<Rightarrow> 'a kissCpx mem" where
  "bfly4_general_group tw m fstride mm i fout =
    bfly4_single_loop tw m fstride 0 (i * mm) 0 0 0 fout"

function bfly4_fast_path ::
  "'a::{plus,minus,times,uminus,one} kissCpx mem \<Rightarrow> int \<Rightarrow> int \<Rightarrow> int \<Rightarrow> int \<Rightarrow> 'a kissCpx mem \<Rightarrow> 'a kissCpx mem" where
  "bfly4_fast_path tw m n mm i fout =
    (if i < n then bfly4_fast_path tw m n mm (i + 1) (bfly4_fast_group tw m mm i fout) else fout)"
  by pat_completeness auto
termination
  by (relation "measure (\<lambda>(tw, m, n, mm, i, fout). nat (n - i))") auto

function bfly4_general_path ::
  "'a::{plus,minus,times,uminus,one} kissCpx mem \<Rightarrow> int \<Rightarrow> int \<Rightarrow> int \<Rightarrow> int \<Rightarrow> int \<Rightarrow> 'a kissCpx mem \<Rightarrow> 'a kissCpx mem" where
  "bfly4_general_path tw m n fstride mm i fout =
    (if i < n
     then bfly4_general_path tw m n fstride mm (i + 1) (bfly4_general_group tw m fstride mm i fout)
     else fout)"
  by pat_completeness auto
termination
  by (relation "measure (\<lambda>(tw, m, n, fstride, mm, i, fout). nat (n - i))") auto

definition kf_bfly4_mx ::
  "'a::{plus,minus,times,uminus,one} kissCpx mem \<Rightarrow> 'a kissCpx mem \<Rightarrow> int \<Rightarrow> int \<Rightarrow> int \<Rightarrow> int \<Rightarrow> 'a kissCpx mem" where
  "kf_bfly4_mx fout tw m n fstride mm =
    (if fstride = 1 then bfly4_fast_path tw m n mm 0 fout
     else bfly4_general_path tw m n fstride mm 0 fout)"

declare bfly4_pair_loop.simps [simp del]
declare bfly4_single_loop.simps [simp del]
declare bfly4_fast_path.simps [simp del]
declare bfly4_general_path.simps [simp del]

section \<open>Radix-5 butterfly, m = 1\<close>

text \<open>\<^verbatim>\<open>kf_bfly5_m1(fout, tw, fstride, n, mm)\<close>.\<close>

definition bfly5_body ::
  "'a::{plus,minus,times,uminus} float32x2 \<Rightarrow> 'a float32x2 \<Rightarrow> 'a float32x2 \<Rightarrow> 'a float32x2 \<Rightarrow> 'a float32x2
    \<Rightarrow> int \<Rightarrow> int \<Rightarrow> 'a kissCpx mem \<Rightarrow> 'a kissCpx mem" where
  "bfly5_body ya_r yb_r ya_i yb_i sign mm i fout =
    (let f = i * mm;
         f0 = ld_cpx fout f;
         f1 = ld_cpx fout (f + 1);
         f2 = ld_cpx fout (f + 2);
         f3 = ld_cpx fout (f + 3);
         f4 = ld_cpx fout (f + 4);
         scratch7 = vadd_f32 f1 f4;
         scratch10 = vsub_f32 f1 f4;
         scratch8 = vadd_f32 f2 f3;
         scratch9 = vsub_f32 f2 f3;
         f0orig = f0;
         f0 = vadd_f32 f0 (vadd_f32 scratch7 scratch8);
         scratch5 = vmla_f32 (vmul_f32 scratch7 ya_r) scratch8 yb_r;
         scratch5 = vadd_f32 scratch5 f0orig;
         s10swap = vrev64_f32 scratch10;
         s9swap = vrev64_f32 scratch9;
         scratch6 = vmla_f32 (vmul_f32 s10swap ya_i) s9swap yb_i;
         scratch6 = vmul_f32 scratch6 sign;
         f1out = vsub_f32 scratch5 scratch6;
         f4out = vadd_f32 scratch5 scratch6;
         scratch11 = vmla_f32 (vmul_f32 scratch7 yb_r) scratch8 ya_r;
         scratch11 = vadd_f32 scratch11 f0orig;
         scratch12 = vmla_f32 (vmul_f32 s9swap ya_i) (vneg_f32 s10swap) yb_i;
         scratch12 = vmul_f32 scratch12 sign;
         f2out = vadd_f32 scratch11 scratch12;
         f3out = vsub_f32 scratch11 scratch12;
         fout = st_cpx fout f f0;
         fout = st_cpx fout (f + 1) f1out;
         fout = st_cpx fout (f + 2) f2out;
         fout = st_cpx fout (f + 3) f3out
     in st_cpx fout (f + 4) f4out)"

function bfly5_loop ::
  "'a::{plus,minus,times,uminus} float32x2 \<Rightarrow> 'a float32x2 \<Rightarrow> 'a float32x2 \<Rightarrow> 'a float32x2 \<Rightarrow> 'a float32x2
    \<Rightarrow> int \<Rightarrow> int \<Rightarrow> int \<Rightarrow> 'a kissCpx mem \<Rightarrow> 'a kissCpx mem" where
  "bfly5_loop ya_r yb_r ya_i yb_i sign n mm i fout =
    (if i < n
     then bfly5_loop ya_r yb_r ya_i yb_i sign n mm (i + 1) (bfly5_body ya_r yb_r ya_i yb_i sign mm i fout)
     else fout)"
  by pat_completeness auto
termination
  by (relation "measure (\<lambda>(ya_r, yb_r, ya_i, yb_i, sign, n, mm, i, fout). nat (n - i))") auto

definition kf_bfly5_m1 ::
  "'a::{plus,minus,times,uminus,one} kissCpx mem \<Rightarrow> 'a kissCpx mem \<Rightarrow> int \<Rightarrow> int \<Rightarrow> int \<Rightarrow> 'a kissCpx mem" where
  "kf_bfly5_m1 fout tw fstride n mm =
    (if n \<le> 0 then fout
     else let ya = tw fstride;
              yb = tw (2 * fstride);
              ya_r = vdup_n_f32 (cpx_r ya);
              yb_r = vdup_n_f32 (cpx_r yb);
              ya_i = vdup_n_f32 (cpx_i ya);
              yb_i = vdup_n_f32 (cpx_i yb);
              sign = (1, - 1)
          in bfly5_loop ya_r yb_r ya_i yb_i sign n mm 0 fout)"

declare bfly5_loop.simps [simp del]

section \<open>Auxiliary definitions for the statements\<close>

text \<open>
  One paired iteration of the postrotation on the locals \<open>(i, yp0, yp1, buf)\<close>: the body of
  the scalar loop followed by \<^verbatim>\<open>yp0 += 2; yp1 -= 2; i++\<close>.
\<close>

fun post_iteration ::
  "'a::{plus,minus,times} mem \<Rightarrow> int \<Rightarrow> int \<Rightarrow> int \<times> int \<times> int \<times> 'a mem \<Rightarrow> int \<times> int \<times> int \<times> 'a mem" where
  "post_iteration trig n2 n4 (i, yp0, yp1, buf) =
     (i + 1, yp0 + 2, yp1 - 2, post_scalar_body trig n2 n4 i yp0 yp1 buf)"

text \<open>The rotation of the postrotation, and the final buffer in closed form: the element
  at \<open>p\<close> comes from the low-half sample of iteration \<open>p div 2\<close> or from the high-half sample
  of iteration \<open>(n2 - 1 - p) div 2\<close>.\<close>

definition rot_yr :: "'a::{plus,times} \<Rightarrow> 'a \<Rightarrow> 'a \<Rightarrow> 'a \<Rightarrow> 'a" where
  "rot_yr re im t0 t1 = re * t0 + im * t1"

definition rot_yi :: "'a::{minus,times} \<Rightarrow> 'a \<Rightarrow> 'a \<Rightarrow> 'a \<Rightarrow> 'a" where
  "rot_yi re im t0 t1 = re * t1 - im * t0"

definition post_closed :: "'a::{plus,minus,times} mem \<Rightarrow> int \<Rightarrow> int \<Rightarrow> 'a mem \<Rightarrow> 'a mem" where
  "post_closed trig n2 n4 buf p =
    (if p < n4
     then (let k = p div 2 in
           if even p then rot_yr (buf (2 * k + 1)) (buf (2 * k)) (trig k) (trig (n4 + k))
           else rot_yi (buf (n2 - 1 - 2 * k)) (buf (n2 - 2 - 2 * k)) (trig (n4 - k - 1)) (trig (n2 - k - 1)))
     else (let k = (n2 - 1 - p) div 2 in
           if even p then rot_yr (buf (n2 - 1 - 2 * k)) (buf (n2 - 2 - 2 * k)) (trig (n4 - k - 1)) (trig (n2 - k - 1))
           else rot_yi (buf (2 * k + 1)) (buf (2 * k)) (trig k) (trig (n4 + k))))"

text \<open>Complex samples lane by lane: sum, difference, a real factor times a sample, and
  the complex product \<open>(a.re * b.re - a.im * b.im, a.re * b.im + a.im * b.re)\<close>.\<close>

definition cpx_add :: "'a::plus kissCpx \<Rightarrow> 'a kissCpx \<Rightarrow> 'a kissCpx" where
  "cpx_add a b = KissCpx (cpx_r a + cpx_r b) (cpx_i a + cpx_i b)"

definition cpx_sub :: "'a::minus kissCpx \<Rightarrow> 'a kissCpx \<Rightarrow> 'a kissCpx" where
  "cpx_sub a b = KissCpx (cpx_r a - cpx_r b) (cpx_i a - cpx_i b)"

definition cpx_scale :: "'a::times \<Rightarrow> 'a kissCpx \<Rightarrow> 'a kissCpx" where
  "cpx_scale c x = KissCpx (c * cpx_r x) (c * cpx_i x)"

definition cpx_mul :: "'a::{plus,minus,times} kissCpx \<Rightarrow> 'a kissCpx \<Rightarrow> 'a kissCpx" where
  "cpx_mul a b = KissCpx (cpx_r a * cpx_r b - cpx_i a * cpx_i b) (cpx_r a * cpx_i b + cpx_i a * cpx_r b)"

text \<open>The two quarter-turn rotations: the lanes swapped, and one of them negated.\<close>

definition swap_neg_second :: "'a::uminus kissCpx \<Rightarrow> 'a kissCpx" where
  "swap_neg_second x = KissCpx (cpx_i x) (- cpx_r x)"

definition swap_neg_first :: "'a::uminus kissCpx \<Rightarrow> 'a kissCpx" where
  "swap_neg_first x = KissCpx (- cpx_i x) (cpx_r x)"

text \<open>
  The radix-4 combination, in the words of the specification: pairwise sums \<open>a, b\<close> and
  differences \<open>s0, s1\<close> of the two halves; outputs \<open>a + b\<close>, \<open>s0\<close> plus one rotation of \<open>s1\<close>,
  \<open>a - b\<close>, \<open>s0\<close> plus the other rotation of \<open>s1\<close>, in the order of the four stores.
\<close>

definition radix4_combine ::
  "'a::{plus,minus,uminus} kissCpx \<Rightarrow> 'a kissCpx \<Rightarrow> 'a kissCpx \<Rightarrow> 'a kissCpx
    \<Rightarrow> 'a kissCpx \<times> 'a kissCpx \<times> 'a kissCpx \<times> 'a kissCpx" where
  "radix4_combine f0 f1 f2 f3 =
    (let a = cpx_add f0 f2; b = cpx_add f1 f3;
         s0 = cpx_sub f0 f2; s1 = cpx_sub f1 f3
     in (cpx_add a b, cpx_add s0 (swap_neg_second s1), cpx_sub a b, cpx_add s0 (swap_neg_first s1)))"

text \<open>The radix-3 combination of the specification, with \<open>epi\<close> and \<open>half = 0.5\<close>.\<close>

definition radix3_combine ::
  "'a::{plus,minus,times,uminus} \<Rightarrow> 'a \<Rightarrow> 'a kissCpx \<Rightarrow> 'a kissCpx \<Rightarrow> 'a kissCpx
    \<Rightarrow> 'a kissCpx \<times> 'a kissCpx \<times> 'a kissCpx" where
  "radix3_combine epi half f0 f1 f2 =
    (let sum = cpx_add f1 f2;
         diff = cpx_sub f1 f2;
         mid = cpx_sub f0 (cpx_scale half sum);
         rot = cpx_scale epi (swap_neg_second diff)
     in (cpx_add f0 sum, cpx_sub mid rot, cpx_add mid rot))"

text \<open>
  The radix-5 combination of the specification. The sums of three terms are associated
  as the code associates them, \<open>f0 + (x + y)\<close>.
\<close>

definition radix5_combine ::
  "'a::{plus,minus,times,uminus} kissCpx \<Rightarrow> 'a kissCpx \<Rightarrow> 'a kissCpx \<Rightarrow> 'a kissCpx \<Rightarrow> 'a kissCpx
    \<Rightarrow> 'a kissCpx \<Rightarrow> 'a kissCpx
    \<Rightarrow> 'a kissCpx \<times> 'a kissCpx \<times> 'a kissCpx \<times> 'a kissCpx \<times> 'a kissCpx" where
  "radix5_combine ya yb f0 f1 f2 f3 f4 =
    (let s_a = cpx_add f1 f4;
         d_a = cpx_sub f1 f4;
         s_b = cpx_add f2 f3;
         d_b = cpx_sub f2 f3;
         c1 = cpx_add f0 (cpx_add (cpx_scale (cpx_r ya) s_a) (cpx_scale (cpx_r yb) s_b));
         o1 = swap_neg_second (cpx_add (cpx_scale (cpx_i ya) d_a) (cpx_scale (cpx_i yb) d_b));
         c2 = cpx_add f0 (cpx_add (cpx_scale (cpx_r yb) s_a) (cpx_scale (cpx_r ya) s_b));
         o2 = swap_neg_second (cpx_sub (cpx_scale (cpx_i ya) d_b) (cpx_scale (cpx_i yb) d_a))
     in (cpx_add f0 (cpx_add s_a s_b), cpx_sub c1 o1, cpx_add c2 o2, cpx_sub c2 o2, cpx_add c1 o1))"

text \<open>
  The identities of the arithmetic that the statements about the butterflies rest on.
  Each holds of IEEE-754 arithmetic on numbers: multiplying by \<open>1\<close> is exact, multiplying
  by \<open>-1\<close> is negation, negation commutes with a product, adding a negation is
  subtracting and subtracting a negation is adding, and \<open>+\<close> and \<open>*\<close> are commutative.
  Associativity and distributivity are not among them.
\<close>

definition float_identities ::
  "('a \<Rightarrow> 'a \<Rightarrow> 'a) \<Rightarrow> ('a \<Rightarrow> 'a \<Rightarrow> 'a) \<Rightarrow> ('a \<Rightarrow> 'a \<Rightarrow> 'a) \<Rightarrow> ('a \<Rightarrow> 'a) \<Rightarrow> 'a \<Rightarrow> bool" where
  "float_identities add sub mul neg one \<longleftrightarrow>
    (\<forall>x. mul x one = x) \<and>
    (\<forall>x. mul x (neg one) = neg x) \<and>
    (\<forall>x y. mul (neg x) y = neg (mul x y)) \<and>
    (\<forall>x y. add x (neg y) = sub x y) \<and>
    (\<forall>x y. sub x (neg y) = add x y) \<and>
    (\<forall>x y. add x y = add y x) \<and>
    (\<forall>x y. mul x y = mul y x)"

text \<open>The cells of the sample buffer that one loop iteration reads and writes: group \<open>k\<close>
  of the radix-4 (m = 1), radix-3 and radix-5 butterflies, position \<open>j\<close> of a group of the
  general radix-4 butterfly, and a whole group of it.\<close>

definition W4 :: "int \<Rightarrow> int set" where
  "W4 k = {4 * k, 4 * k + 1, 4 * k + 2, 4 * k + 3}"

definition W3 :: "int \<Rightarrow> int \<Rightarrow> int set" where
  "W3 mm k = {k * mm, k * mm + 1, k * mm + 2}"

definition W5 :: "int \<Rightarrow> int \<Rightarrow> int set" where
  "W5 mm k = {k * mm, k * mm + 1, k * mm + 2, k * mm + 3, k * mm + 4}"

definition WJ :: "int \<Rightarrow> int \<Rightarrow> int \<Rightarrow> int set" where
  "WJ m base j = {base + j, base + j + m, base + j + 2 * m, base + j + 3 * m}"

definition WG :: "int \<Rightarrow> int \<Rightarrow> int \<Rightarrow> int set" where
  "WG m mm i = {i * mm ..< i * mm + 4 * m}"

section \<open>Prerotation: what is written\<close>

lemma pre_vec_body_eq:
  "pre_vec_body narrow spec trig n2 n4 i out =
   pre_scalar_body narrow spec trig n2 n4 (i + 1) (pre_scalar_body narrow spec trig n2 n4 i out)"
  by (simp add: pre_vec_body_def pre_scalar_body_def vdup_n_f32_def vld1_f32_def Let_def
      algebra_simps)

lemma pre_vec_then_scalar:
  "(case pre_vec_loop narrow spec trig n2 n4 i out of
      (i', out') \<Rightarrow> pre_scalar_loop narrow spec trig n2 n4 i' out') =
   pre_scalar_loop narrow spec trig n2 n4 i out"
proof (induction narrow spec trig n2 n4 i out rule: pre_vec_loop.induct)
  case (1 narrow spec trig n2 n4 i out)
  show ?case
  proof (cases "i + 1 < n4")
    case True
    have two: "pre_scalar_loop narrow spec trig n2 n4 i out =
      pre_scalar_loop narrow spec trig n2 n4 (i + 2)
        (pre_scalar_body narrow spec trig n2 n4 (i + 1) (pre_scalar_body narrow spec trig n2 n4 i out))"
      using True
      by (subst pre_scalar_loop.simps, subst pre_scalar_loop.simps) (simp add: add.assoc)
    show ?thesis
      using True "1.IH" two
      by (subst pre_vec_loop.simps) (simp add: pre_vec_body_eq)
  next
    case False
    then show ?thesis
      by (subst pre_vec_loop.simps) simp
  qed
qed

lemma prerotate_scalar:
  "imdct_prerotate_f32 narrow out spec trig n2 n4 = pre_scalar_loop narrow spec trig n2 n4 0 out"
  by (simp add: imdct_prerotate_f32_def pre_vec_then_scalar pre_scalar_loop.simps [of _ _ _ _ n4 0])

lemma pre_scalar_loop_at:
  "pre_scalar_loop narrow spec trig n2 n4 i out p =
    (if 2 * i \<le> p \<and> p < 2 * n4
     then (let k = p div 2; x1 = narrow (spec (2 * k)); x2 = narrow (spec (n2 - 1 - 2 * k));
               t0 = trig k; t1 = trig (n4 + k)
           in if even p then x1 * t0 - x2 * t1 else x2 * t0 + x1 * t1)
     else out p)"
proof (induction narrow spec trig n2 n4 i out rule: pre_scalar_loop.induct)
  case (1 narrow spec trig n2 n4 i out)
  show ?case
  proof (cases "i < n4")
    case True
    have ih: "pre_scalar_loop narrow spec trig n2 n4 (i + 1) (pre_scalar_body narrow spec trig n2 n4 i out) p =
      (if 2 * (i + 1) \<le> p \<and> p < 2 * n4
       then (let k = p div 2; x1 = narrow (spec (2 * k)); x2 = narrow (spec (n2 - 1 - 2 * k));
               t0 = trig k; t1 = trig (n4 + k)
           in if even p then x1 * t0 - x2 * t1 else x2 * t0 + x1 * t1)
       else pre_scalar_body narrow spec trig n2 n4 i out p)"
      using True "1.IH" by simp
    have step: "pre_scalar_loop narrow spec trig n2 n4 i out p =
      pre_scalar_loop narrow spec trig n2 n4 (i + 1) (pre_scalar_body narrow spec trig n2 n4 i out) p"
      using True by (subst pre_scalar_loop.simps) simp
    consider "p = 2 * i" | "p = 2 * i + 1" | "p < 2 * i" | "2 * (i + 1) \<le> p" by atomize_elim arith
    then show ?thesis
    proof cases
      case 1
      then show ?thesis unfolding step ih using True by (simp add: pre_scalar_body_def Let_def)
    next
      case 2
      then show ?thesis unfolding step ih using True by (simp add: pre_scalar_body_def Let_def)
    next
      case 3
      then show ?thesis unfolding step ih using True by (simp add: pre_scalar_body_def Let_def)
    next
      case 4
      then show ?thesis unfolding step ih using True by (simp add: pre_scalar_body_def Let_def)
    qed
  next
    case False
    then show ?thesis
      by (subst pre_scalar_loop.simps) auto
  qed
qed

text \<open>
  Claim C1. For \<open>n4 \<le> 0\<close> the call leaves \<open>out\<close> as it was. For \<open>n4 \<ge> 1\<close> and every
  \<open>i\<close> in \<open>[0, n4)\<close>, with \<open>x1 = (float) spec[2 i]\<close>, \<open>x2 = (float) spec[n2 - 1 - 2 i]\<close>,
  \<open>t0 = trig[i]\<close>, \<open>t1 = trig[n4 + i]\<close>, the result holds \<open>yi = x1 * t0 - x2 * t1\<close> at
  \<open>out[2 i]\<close> and \<open>yr = x2 * t0 + x1 * t1\<close> at \<open>out[2 i + 1]\<close>, each built by exactly these
  operations; every element outside \<open>[0, 2 n4)\<close> is left as it was.
\<close>

theorem prerotate_writes:
  "(n4 \<le> 0 \<longrightarrow> imdct_prerotate_f32 narrow out spec trig n2 n4 = out) \<and>
   (0 \<le> i \<and> i < n4 \<longrightarrow>
      (let x1 = narrow (spec (2 * i)); x2 = narrow (spec (n2 - 1 - 2 * i));
           t0 = trig i; t1 = trig (n4 + i)
       in imdct_prerotate_f32 narrow out spec trig n2 n4 (2 * i) = x1 * t0 - x2 * t1 \<and>
          imdct_prerotate_f32 narrow out spec trig n2 n4 (2 * i + 1) = x2 * t0 + x1 * t1)) \<and>
   (p < 0 \<or> 2 * n4 \<le> p \<longrightarrow> imdct_prerotate_f32 narrow out spec trig n2 n4 p = out p)"
proof (intro conjI impI)
  assume "n4 \<le> 0"
  then show "imdct_prerotate_f32 narrow out spec trig n2 n4 = out"
    by (simp add: imdct_prerotate_f32_def)
next
  assume i: "0 \<le> i \<and> i < n4"
  have d: "(2 * i + 1) div 2 = i" by simp
  from i show "let x1 = narrow (spec (2 * i)); x2 = narrow (spec (n2 - 1 - 2 * i));
           t0 = trig i; t1 = trig (n4 + i)
       in imdct_prerotate_f32 narrow out spec trig n2 n4 (2 * i) = x1 * t0 - x2 * t1 \<and>
          imdct_prerotate_f32 narrow out spec trig n2 n4 (2 * i + 1) = x2 * t0 + x1 * t1"
    by (simp add: prerotate_scalar pre_scalar_loop_at Let_def d)
next
  assume "p < 0 \<or> 2 * n4 \<le> p"
  then show "imdct_prerotate_f32 narrow out spec trig n2 n4 p = out p"
    by (auto simp: prerotate_scalar pre_scalar_loop_at)
qed

theorem prerotate_writes_witness:
  "imdct_prerotate_f32 (\<lambda>x. x) (\<lambda>k. 0) (\<lambda>k. k + 1) (\<lambda>k. 2 * k + 1) 6 3 2 = (3 * 3 - 4 * 9 :: int) \<and>
   imdct_prerotate_f32 (\<lambda>x. x) (\<lambda>k. 0) (\<lambda>k. k + 1) (\<lambda>k. 2 * k + 1) 6 3 3 = (4 * 3 + 3 * 9 :: int) \<and>
   imdct_prerotate_f32 (\<lambda>x. x) (\<lambda>k. 0) (\<lambda>k. k + 1) (\<lambda>k. 2 * k + 1) 6 3 6 = (0 :: int) \<and>
   imdct_prerotate_f32 (\<lambda>x. x) (\<lambda>k. 5) (\<lambda>k. k + 1) (\<lambda>k. 2 * k + 1) 0 0 = (\<lambda>k. 5 :: int)"
  using prerotate_writes [of 3 "\<lambda>x. x" "\<lambda>k. 0 :: int" "\<lambda>k. k + 1" "\<lambda>k. 2 * k + 1" 6 1 6]
    prerotate_writes [of 0 "\<lambda>x. x" "\<lambda>k. 5 :: int" "\<lambda>k. k + 1" "\<lambda>k. 2 * k + 1" 0 0 0]
  by simp

section \<open>Postrotation: iterations, cross writes, vector against scalar\<close>

lemma post_vec_body_eq:
  assumes "n2 = 2 * n4" "yp0 = 2 * i" "yp1 = n2 - 2 - 2 * i" "i + 1 < (n4 + 1) div 2"
  shows "post_vec_body trig n2 n4 i yp0 yp1 buf =
   post_scalar_body trig n2 n4 (i + 1) (yp0 + 2) (yp1 - 2) (post_scalar_body trig n2 n4 i yp0 yp1 buf)"
proof -
  have "n4 = 2 * i + 3 \<or> 2 * i + 4 \<le> n4" using assms by arith
  then show ?thesis
  proof
    assume m: "n4 = 2 * i + 3"
    show ?thesis
      unfolding post_vec_body_def post_scalar_body_def vld1q_f32_def vld1_f32_def Let_def
      using assms m by (auto simp: fun_eq_iff algebra_simps)
  next
    assume m: "2 * i + 4 \<le> n4"
    show ?thesis
      unfolding post_vec_body_def post_scalar_body_def vld1q_f32_def vld1_f32_def Let_def
      using assms m by (auto simp: fun_eq_iff algebra_simps)
  qed
qed

lemma post_scalar_loop_funpow:
  "i \<le> limit \<Longrightarrow> post_scalar_loop trig n2 n4 limit i yp0 yp1 buf =
     (post_iteration trig n2 n4 ^^ nat (limit - i)) (i, yp0, yp1, buf)"
proof (induction trig n2 n4 limit i yp0 yp1 buf rule: post_scalar_loop.induct)
  case (1 trig n2 n4 limit i yp0 yp1 buf)
  show ?case
  proof (cases "i < limit")
    case True
    then have n: "nat (limit - i) = Suc (nat (limit - (i + 1)))" by simp
    show ?thesis
      using True "1.IH"
      by (subst post_scalar_loop.simps) (simp add: n funpow_Suc_right del: funpow.simps)
  next
    case False
    with "1.prems" show ?thesis
      by (subst post_scalar_loop.simps) simp
  qed
qed

lemma post_vec_then_scalar:
  assumes "n2 = 2 * n4" "limit = (n4 + 1) div 2" "yp0 = 2 * i" "yp1 = n2 - 2 - 2 * i"
  shows "(case post_vec_loop trig n2 n4 limit i yp0 yp1 buf of
      (i', yp0', yp1', buf') \<Rightarrow> post_scalar_loop trig n2 n4 limit i' yp0' yp1' buf') =
   post_scalar_loop trig n2 n4 limit i yp0 yp1 buf"
  using assms
proof (induction trig n2 n4 limit i yp0 yp1 buf rule: post_vec_loop.induct)
  case (1 trig n2 n4 limit i yp0 yp1 buf)
  show ?case
  proof (cases "i + 1 < limit")
    case True
    have two: "post_scalar_loop trig n2 n4 limit i yp0 yp1 buf =
      post_scalar_loop trig n2 n4 limit (i + 2) (yp0 + 4) (yp1 - 4)
        (post_scalar_body trig n2 n4 (i + 1) (yp0 + 2) (yp1 - 2) (post_scalar_body trig n2 n4 i yp0 yp1 buf))"
      using True
      by (subst post_scalar_loop.simps, subst post_scalar_loop.simps) (simp add: add.assoc)
    have body: "post_vec_body trig n2 n4 i yp0 yp1 buf =
      post_scalar_body trig n2 n4 (i + 1) (yp0 + 2) (yp1 - 2) (post_scalar_body trig n2 n4 i yp0 yp1 buf)"
      using True "1.prems" by (intro post_vec_body_eq) auto
    have ih: "(case post_vec_loop trig n2 n4 limit (i + 2) (yp0 + 4) (yp1 - 4) (post_vec_body trig n2 n4 i yp0 yp1 buf) of
      (i', yp0', yp1', buf') \<Rightarrow> post_scalar_loop trig n2 n4 limit i' yp0' yp1' buf') =
      post_scalar_loop trig n2 n4 limit (i + 2) (yp0 + 4) (yp1 - 4) (post_vec_body trig n2 n4 i yp0 yp1 buf)"
      using True "1.prems" by (intro "1.IH") auto
    show ?thesis
      using True ih two
      by (subst post_vec_loop.simps) (simp add: body)
  next
    case False
    then show ?thesis
      by (subst post_vec_loop.simps) simp
  qed
qed

lemma postrotate_loops_scalar:
  "n2 = 2 * n4 \<Longrightarrow> postrotate_loops trig n2 n4 ((n4 + 1) div 2) buf =
     post_scalar_loop trig n2 n4 ((n4 + 1) div 2) 0 0 (n2 - 2) buf"
  unfolding postrotate_loops_def by (rule post_vec_then_scalar) auto

lemma post_scalar_body_upd:
  "post_scalar_body trig n2 n4 i yp0 yp1 buf =
     buf(yp0 := rot_yr (buf (yp0 + 1)) (buf yp0) (trig i) (trig (n4 + i)),
         yp1 + 1 := rot_yi (buf (yp0 + 1)) (buf yp0) (trig i) (trig (n4 + i)),
         yp1 := rot_yr (buf (yp1 + 1)) (buf yp1) (trig (n4 - i - 1)) (trig (n2 - i - 1)),
         yp0 + 1 := rot_yi (buf (yp1 + 1)) (buf yp1) (trig (n4 - i - 1)) (trig (n2 - i - 1)))"
  by (simp add: post_scalar_body_def rot_yr_def rot_yi_def Let_def)

lemma post_closed_cong:
  assumes "\<And>q. 2 * i \<le> q \<Longrightarrow> q < 2 * n4 - 2 * i \<Longrightarrow> b' q = b q"
    and "2 * i \<le> p" "p < 2 * n4 - 2 * i"
  shows "post_closed trig (2 * n4) n4 b' p = post_closed trig (2 * n4) n4 b p"
proof (cases "p < n4")
  case True
  define k where "k = p div 2"
  have k: "2 * i \<le> 2 * k" "2 * k + 1 < 2 * n4 - 2 * i" "2 * i \<le> 2 * n4 - 2 - 2 * k" "2 * n4 - 1 - 2 * k < 2 * n4 - 2 * i"
    using assms(2,3) True unfolding k_def by arith+
  have eqs: "b' (2 * k) = b (2 * k)" "b' (2 * k + 1) = b (2 * k + 1)"
    "b' (2 * n4 - 1 - 2 * k) = b (2 * n4 - 1 - 2 * k)" "b' (2 * n4 - 2 - 2 * k) = b (2 * n4 - 2 - 2 * k)"
    using k by (auto intro!: assms(1))
  show ?thesis unfolding post_closed_def Let_def k_def [symmetric] by (simp only: eqs True if_True)
next
  case False
  define k where "k = (2 * n4 - 1 - p) div 2"
  have k: "2 * i \<le> 2 * k" "2 * k + 1 < 2 * n4 - 2 * i" "2 * i \<le> 2 * n4 - 2 - 2 * k" "2 * n4 - 1 - 2 * k < 2 * n4 - 2 * i"
    using assms(2,3) False unfolding k_def by arith+
  have eqs: "b' (2 * k) = b (2 * k)" "b' (2 * k + 1) = b (2 * k + 1)"
    "b' (2 * n4 - 1 - 2 * k) = b (2 * n4 - 1 - 2 * k)" "b' (2 * n4 - 2 - 2 * k) = b (2 * n4 - 2 - 2 * k)"
    using k by (auto intro!: assms(1))
  show ?thesis unfolding post_closed_def Let_def k_def [symmetric] by (simp only: eqs False if_False)
qed

lemma post_closed_step:
  assumes "i < (n4 + 1) div 2" "0 \<le> i"
    and "p = 2 * i \<or> p = 2 * i + 1 \<or> p = 2 * n4 - 2 - 2 * i \<or> p = 2 * n4 - 1 - 2 * i"
  shows "post_scalar_body trig (2 * n4) n4 i (2 * i) (2 * n4 - 2 - 2 * i) buf p = post_closed trig (2 * n4) n4 buf p"
proof -
  have "2 * i + 1 = n4 \<or> 2 * i + 1 < n4" using assms(1) by arith
  then show ?thesis
  proof
    assume m: "2 * i + 1 = n4"
    have d: "(2 * i) div 2 = i" "(2 * i + 1) div 2 = i" "(4 * i + 1 - 2 * i) div 2 = i" by auto
    from assms(3) show ?thesis
      unfolding post_scalar_body_upd post_closed_def Let_def m [symmetric]
      by (auto simp: d add.commute)
  next
    assume m: "2 * i + 1 < n4"
    have d: "(2 * i) div 2 = i" "(2 * i + 1) div 2 = i" "(2 * n4 - 1 - (2 * n4 - 2 - 2 * i)) div 2 = i"
      "(2 * n4 - 1 - (2 * n4 - 1 - 2 * i)) div 2 = i" by auto
    have ne: "2 * n4 \<noteq> 4 * i + 3" by presburger
    have c: "2 * n4 - 2 * i - 1 = 2 * n4 - 1 - 2 * i" "1 + 2 * i = 2 * i + 1" by simp_all
    from assms(3) m show ?thesis
      unfolding post_scalar_body_upd post_closed_def Let_def
      by (auto simp: d ne c)
  qed
qed

lemma post_scalar_body_frame:
  "p \<noteq> yp0 \<Longrightarrow> p \<noteq> yp0 + 1 \<Longrightarrow> p \<noteq> yp1 \<Longrightarrow> p \<noteq> yp1 + 1 \<Longrightarrow>
   post_scalar_body trig n2 n4 i yp0 yp1 buf p = buf p"
  by (simp add: post_scalar_body_upd)

lemma post_scalar_loop_buf:
  assumes "n2 = 2 * n4" "limit = (n4 + 1) div 2" "0 \<le> i" "yp0 = 2 * i" "yp1 = n2 - 2 - 2 * i"
  shows "snd (snd (snd (post_scalar_loop trig n2 n4 limit i yp0 yp1 buf))) p =
    (if 2 * i \<le> p \<and> p < n2 - 2 * i then post_closed trig n2 n4 buf p else buf p)"
  using assms
proof (induction trig n2 n4 limit i yp0 yp1 buf rule: post_scalar_loop.induct)
  case (1 trig n2 n4 limit i yp0 yp1 buf)
  note prems = "1.prems"
  show ?case
  proof (cases "i < limit")
    case True
    define b' where "b' = post_scalar_body trig n2 n4 i yp0 yp1 buf"
    have step: "post_scalar_loop trig n2 n4 limit i yp0 yp1 buf =
        post_scalar_loop trig n2 n4 limit (i + 1) (yp0 + 2) (yp1 - 2) b'"
      using True unfolding b'_def by (subst post_scalar_loop.simps) simp
    have ih: "snd (snd (snd (post_scalar_loop trig n2 n4 limit (i + 1) (yp0 + 2) (yp1 - 2) b'))) p =
        (if 2 * (i + 1) \<le> p \<and> p < n2 - 2 * (i + 1) then post_closed trig n2 n4 b' p else b' p)"
      unfolding b'_def using True prems by (intro "1.IH") auto
    have lim: "i < (n4 + 1) div 2" using True prems by simp
    have frame: "b' q = buf q" if "q < 2 * i \<or> (2 * (i + 1) \<le> q \<and> q < n2 - 2 * (i + 1)) \<or> n2 - 2 * i \<le> q" for q
      unfolding b'_def using that prems lim by (intro post_scalar_body_frame) arith+
    consider (inner) "2 * (i + 1) \<le> p \<and> p < n2 - 2 * (i + 1)"
      | (touched) "p = 2 * i \<or> p = 2 * i + 1 \<or> p = 2 * n4 - 2 - 2 * i \<or> p = 2 * n4 - 1 - 2 * i"
      | (outer) "p < 2 * i \<or> n2 - 2 * i \<le> p"
      using prems by atomize_elim arith
    then show ?thesis
    proof cases
      case inner
      have "post_closed trig (2 * n4) n4 b' p = post_closed trig (2 * n4) n4 buf p"
        using inner prems by (intro post_closed_cong [where i = "i + 1"] frame) auto
      then show ?thesis unfolding step ih using inner prems by simp
    next
      case touched
      have "b' p = post_closed trig (2 * n4) n4 buf p"
        unfolding b'_def using prems lim touched post_closed_step [of i n4 p trig buf] by simp
      moreover have "2 * i \<le> p \<and> p < n2 - 2 * i \<and> \<not> (2 * (i + 1) \<le> p \<and> p < n2 - 2 * (i + 1))"
        using touched prems lim by arith
      ultimately show ?thesis unfolding step ih using prems by auto
    next
      case outer
      then have "b' p = buf p" by (intro frame) auto
      then show ?thesis unfolding step ih using outer by auto
    qed
  next
    case False
    then have "\<not> (2 * i \<le> p \<and> p < n2 - 2 * i)" using prems by arith
    then show ?thesis using False
      by (subst post_scalar_loop.simps) auto
  qed
qed

lemma postrotate_closed:
  assumes "n2 = 2 * n4"
  shows "imdct_postrotate_f32 buf trig n2 n4 p =
    (if 0 \<le> p \<and> p < n2 then post_closed trig n2 n4 buf p else buf p)"
proof (cases "(n4 + 1) div 2 \<le> 0")
  case True
  then have "\<not> (0 \<le> p \<and> p < n2)" using assms by arith
  then show ?thesis using True by (auto simp: imdct_postrotate_f32_def)
next
  case False
  then show ?thesis
    using post_scalar_loop_buf [of n2 n4 "(n4 + 1) div 2" 0 0 "n2 - 2" trig buf p] assms
    by (simp add: imdct_postrotate_f32_def postrotate_loops_scalar split_beta Let_def)
qed

lemma post_iteration_state:
  "\<exists>b. (post_iteration trig n2 n4 ^^ k) (0, 0, n2 - 2, buf) = (int k, 2 * int k, n2 - 2 - 2 * int k, b)"
proof (induction k)
  case 0
  show ?case by simp
next
  case (Suc k)
  then obtain b where "(post_iteration trig n2 n4 ^^ k) (0, 0, n2 - 2, buf) = (int k, 2 * int k, n2 - 2 - 2 * int k, b)"
    by blast
  then show ?case by (simp add: algebra_simps)
qed

lemma post_iteration_cursors:
  "(case (post_iteration trig n2 n4 ^^ k) (0, 0, n2 - 2, buf) of
      (i, low, high, b) \<Rightarrow> i = int k \<and> low = 2 * int k \<and> high = n2 - 2 - 2 * int k)"
  using post_iteration_state [where trig = trig and ?n2.0 = n2 and ?n4.0 = n4 and k = k and buf = buf]
  by (auto simp del: funpow.simps)

lemma postrotate_funpow:
  assumes "n2 = 2 * n4"
  shows "imdct_postrotate_f32 buf trig n2 n4 =
    snd (snd (snd ((post_iteration trig n2 n4 ^^ nat ((n4 + 1) div 2)) (0, 0, n2 - 2, buf))))"
proof (cases "(n4 + 1) div 2 \<le> 0")
  case True
  then show ?thesis by (simp add: imdct_postrotate_f32_def)
next
  case False
  then show ?thesis
    using assms post_scalar_loop_funpow [of 0 "(n4 + 1) div 2" trig n2 n4 0 "n2 - 2" buf]
    by (simp add: imdct_postrotate_f32_def postrotate_loops_scalar split_beta Let_def)
qed

text \<open>
  Claim C2. With \<open>n2 = 2 n4\<close>, the call does exactly \<open>ceil(n4 / 2) = (n4 + 1) div 2\<close> paired
  iterations, started at \<open>low = 0\<close>, \<open>high = n2 - 2\<close>; after \<open>k\<close> iterations the cursors are
  \<open>low = 2 k\<close> and \<open>high = n2 - 2 - 2 k\<close>. For each iteration \<open>i\<close>, with
  \<open>(im, re) = (buf[low], buf[low + 1])\<close>, \<open>t0 = trig[i]\<close>, \<open>t1 = trig[n4 + i]\<close>, the result
  holds \<open>yr = re * t0 + im * t1\<close> at \<open>buf[low]\<close> and \<open>yi = re * t1 - im * t0\<close> at
  \<open>buf[high + 1]\<close>. For \<open>n4 \<le> 0\<close> (in particular \<open>n4 = 0\<close>) the buffer is left as it was.
\<close>

theorem postrotate_low_half:
  "(n4 \<le> 0 \<longrightarrow> imdct_postrotate_f32 buf trig n2 n4 = buf) \<and>
   (n2 = 2 * n4 \<longrightarrow>
      imdct_postrotate_f32 buf trig n2 n4 =
        snd (snd (snd ((post_iteration trig n2 n4 ^^ nat ((n4 + 1) div 2)) (0, 0, n2 - 2, buf)))) \<and>
      (case (post_iteration trig n2 n4 ^^ k) (0, 0, n2 - 2, buf) of
         (i', low, high, b) \<Rightarrow> i' = int k \<and> low = 2 * int k \<and> high = n2 - 2 - 2 * int k)) \<and>
   (n2 = 2 * n4 \<and> 0 \<le> i \<and> i < (n4 + 1) div 2 \<longrightarrow>
      (let low = 2 * i; high = n2 - 2 - 2 * i;
           im = buf low; re = buf (low + 1);
           t0 = trig i; t1 = trig (n4 + i)
       in imdct_postrotate_f32 buf trig n2 n4 low = re * t0 + im * t1 \<and>
          imdct_postrotate_f32 buf trig n2 n4 (high + 1) = re * t1 - im * t0))"
proof (intro conjI impI)
  assume "n4 \<le> 0"
  then have "(n4 + 1) div 2 \<le> 0" by arith
  then show "imdct_postrotate_f32 buf trig n2 n4 = buf"
    by (simp add: imdct_postrotate_f32_def)
next
  assume "n2 = 2 * n4"
  then show "imdct_postrotate_f32 buf trig n2 n4 =
        snd (snd (snd ((post_iteration trig n2 n4 ^^ nat ((n4 + 1) div 2)) (0, 0, n2 - 2, buf))))"
    by (rule postrotate_funpow)
next
  show "case (post_iteration trig n2 n4 ^^ k) (0, 0, n2 - 2, buf) of
         (i', low, high, b) \<Rightarrow> i' = int k \<and> low = 2 * int k \<and> high = n2 - 2 - 2 * int k"
    by (rule post_iteration_cursors)
next
  assume a: "n2 = 2 * n4 \<and> 0 \<le> i \<and> i < (n4 + 1) div 2"
  then have r: "0 \<le> 2 * i" "2 * i < n2" "2 * i < n4" "even (2 * i)" "(2 * i) div 2 = i"
    "0 \<le> n2 - 2 - 2 * i + 1" "n2 - 2 - 2 * i + 1 < n2" "\<not> n2 - 2 - 2 * i + 1 < n4"
    "odd (n2 - 2 - 2 * i + 1)" "(n2 - 1 - (n2 - 2 - 2 * i + 1)) div 2 = i"
    by (presburger | simp)+
  from a have n2: "n2 = 2 * n4" by simp
  show "let low = 2 * i; high = n2 - 2 - 2 * i;
           im = buf low; re = buf (low + 1);
           t0 = trig i; t1 = trig (n4 + i)
       in imdct_postrotate_f32 buf trig n2 n4 low = re * t0 + im * t1 \<and>
          imdct_postrotate_f32 buf trig n2 n4 (high + 1) = re * t1 - im * t0"
    unfolding Let_def postrotate_closed [OF n2]
    by (simp only: r post_closed_def Let_def rot_yr_def rot_yi_def simp_thms if_True if_False)
qed

theorem postrotate_low_half_witness:
  "imdct_postrotate_f32 (\<lambda>k. k + 1) (\<lambda>k. k + 2) 0 0 = (\<lambda>k. k + 1 :: int) \<and>
   imdct_postrotate_f32 (\<lambda>k. k + 1) (\<lambda>k. k + 2 :: int) 6 3 =
     snd (snd (snd ((post_iteration (\<lambda>k. k + 2) 6 3 ^^ nat ((3 + 1) div 2)) (0, 0, 6 - 2, \<lambda>k. k + 1)))) \<and>
   imdct_postrotate_f32 (\<lambda>k. k + 1) (\<lambda>k. k + 2) 6 3 2 = (4 * 3 + 3 * 6 :: int) \<and>
   imdct_postrotate_f32 (\<lambda>k. k + 1) (\<lambda>k. k + 2) 6 3 3 = (4 * 6 - 3 * 3 :: int)"
  using postrotate_low_half [of 0 "\<lambda>k. k + 1 :: int" "\<lambda>k. k + 2" 0 0 0]
    postrotate_low_half [of 3 "\<lambda>k. k + 1 :: int" "\<lambda>k. k + 2" 6 1 1]
  by (simp add: eval_nat_numeral post_scalar_body_def Let_def)

text \<open>
  Claim C3. With \<open>n2 = 2 n4\<close>, for each iteration \<open>i\<close> the high-half sample
  \<open>(im2, re2) = (buf[high], buf[high + 1])\<close> is rotated by the same formula with
  \<open>t0 = trig[n4 - i - 1]\<close>, \<open>t1 = trig[n2 - i - 1]\<close>; its \<open>yr\<close> is stored in the high slot at
  \<open>buf[high]\<close> and its \<open>yi\<close> crosses into the low slot at \<open>buf[low + 1]\<close>.
\<close>

theorem postrotate_high_half:
  assumes "n2 = 2 * n4" "0 \<le> i" "i < (n4 + 1) div 2"
  shows "(let low = 2 * i; high = n2 - 2 - 2 * i;
           im2 = buf high; re2 = buf (high + 1);
           t0 = trig (n4 - i - 1); t1 = trig (n2 - i - 1)
       in imdct_postrotate_f32 buf trig n2 n4 high = re2 * t0 + im2 * t1 \<and>
          imdct_postrotate_f32 buf trig n2 n4 (low + 1) = re2 * t1 - im2 * t0)"
proof -
  have "2 * i + 1 = n4 \<or> 2 * i + 1 < n4" using assms by arith
  then show ?thesis
  proof
    assume m: "2 * i + 1 = n4"
    have r: "0 \<le> 2 * i" "2 * i < n2" "2 * i < n4" "even (2 * i)"
      "(2 * i) div 2 = i" "0 \<le> 2 * i + 1" "2 * i + 1 < n2" "\<not> 2 * i + 1 < n4"
      "odd (2 * i + 1)" "(n2 - 1 - (2 * i + 1)) div 2 = i"
      "n2 - 2 - 2 * i = 2 * i" "n4 - i - 1 = i" "n2 - i - 1 = n4 + i"
      using assms m by (presburger | simp)+
    show ?thesis
      unfolding Let_def postrotate_closed [OF assms(1)]
      by (simp only: r post_closed_def Let_def rot_yr_def rot_yi_def simp_thms if_True if_False)
  next
    assume m: "2 * i + 1 < n4"
    have r: "0 \<le> n2 - 2 - 2 * i" "n2 - 2 - 2 * i < n2" "\<not> n2 - 2 - 2 * i < n4" "even (n2 - 2 - 2 * i)"
      "(n2 - 1 - (n2 - 2 - 2 * i)) div 2 = i" "0 \<le> 2 * i + 1" "2 * i + 1 < n2" "2 * i + 1 < n4"
      "odd (2 * i + 1)" "(2 * i + 1) div 2 = i"
      "n2 - 1 - 2 * i = n2 - 2 - 2 * i + 1"
      using assms m by (presburger | simp)+
    show ?thesis
      unfolding Let_def postrotate_closed [OF assms(1)]
      by (simp only: r post_closed_def Let_def rot_yr_def rot_yi_def simp_thms if_True if_False)
  qed
qed

theorem postrotate_high_half_witness:
  "imdct_postrotate_f32 (\<lambda>k. k + 1) (\<lambda>k. k + 2) 6 3 4 = (6 * 4 + 5 * 7 :: int) \<and>
   imdct_postrotate_f32 (\<lambda>k. k + 1) (\<lambda>k. k + 2) 6 3 1 = (6 * 7 - 5 * 4 :: int)"
  using postrotate_high_half [of 6 3 0 "\<lambda>k. k + 1 :: int" "\<lambda>k. k + 2"]
  by simp

text \<open>
  The operation structure of the two paths: by \<open>prerotate_scalar\<close> and \<open>postrotate_scalar\<close>
  the vector loop followed by the scalar remainder applies, element for element, the
  operations that the scalar remainder alone applies when started at \<open>i = 0\<close>, each C operator
  and each intrinsic counted as one operation. This does not say that the two paths return
  the same bits: the scalar remainders are plain C expressions such as
  \<^verbatim>\<open>x2 * t0 + x1 * t1\<close>, which a compiler may contract into fused multiply-adds (the
  source sets no \<^verbatim>\<open>FP_CONTRACT\<close>), while the vector loops call \<^verbatim>\<open>vmul_f32\<close>,
  \<^verbatim>\<open>vadd_f32\<close> and \<^verbatim>\<open>vsub_f32\<close> one by one.
\<close>

lemma postrotate_scalar:
  assumes "n2 = 2 * n4"
  shows "imdct_postrotate_f32 buf trig n2 n4 =
    snd (snd (snd (post_scalar_loop trig n2 n4 ((n4 + 1) div 2) 0 0 (n2 - 2) buf)))"
proof (cases "(n4 + 1) div 2 \<le> 0")
  case True
  then show ?thesis
    by (subst post_scalar_loop.simps) (simp add: imdct_postrotate_f32_def)
next
  case False
  then show ?thesis
    using assms by (simp add: imdct_postrotate_f32_def postrotate_loops_scalar split_beta Let_def)
qed




section \<open>The butterflies\<close>

lemma fold_local_frame:
  assumes "\<And>k b. k \<in> set ks \<Longrightarrow> q \<notin> W k \<Longrightarrow> body k b q = b q"
    and "\<And>k. k \<in> set ks \<Longrightarrow> q \<notin> W k"
  shows "fold body ks b q = b q"
  using assms
proof (induction ks arbitrary: b)
  case Nil
  show ?case by simp
next
  case (Cons a ks)
  have "fold body ks (body a b) q = body a b q"
  proof (rule Cons.IH)
    fix k b assume "k \<in> set ks" "q \<notin> W k"
    then show "body k b q = b q" by (intro Cons.prems(1)) simp_all
  next
    fix k assume "k \<in> set ks"
    then show "q \<notin> W k" by (intro Cons.prems(2)) simp
  qed
  moreover have "body a b q = b q"
    by (intro Cons.prems(1) Cons.prems(2)) simp_all
  ultimately show ?case by simp
qed

lemma fold_local_value:
  assumes writes: "\<And>k b q. k \<in> set ks \<Longrightarrow> q \<notin> W k \<Longrightarrow> body k b q = b q"
    and reads: "\<And>k b b' q. k \<in> set ks \<Longrightarrow> q \<in> W k \<Longrightarrow> (\<And>q'. q' \<in> W k \<Longrightarrow> b q' = b' q') \<Longrightarrow> body k b q = body k b' q"
    and disj: "\<And>k k'. k \<in> set ks \<Longrightarrow> k' \<in> set ks \<Longrightarrow> k \<noteq> k' \<Longrightarrow> W k \<inter> W k' = {}"
    and "distinct ks" "k \<in> set ks" "q \<in> W k"
  shows "fold body ks b q = body k b q"
  using assms
proof (induction ks arbitrary: b)
  case Nil
  from Nil.prems(5) show ?case by simp
next
  case (Cons a ks)
  have dist: "a \<notin> set ks" "distinct ks" using Cons.prems(4) by simp_all
  have w: "body k' b' q' = b' q'" if "k' \<in> set (a # ks)" "q' \<notin> W k'" for k' b' q'
    using that by (rule Cons.prems(1))
  have r: "body k' b1 q' = body k' b2 q'"
    if "k' \<in> set (a # ks)" "q' \<in> W k'" "\<And>p. p \<in> W k' \<Longrightarrow> b1 p = b2 p" for k' b1 b2 q'
    using that by (rule Cons.prems(2))
  have d: "W k1 \<inter> W k2 = {}" if "k1 \<in> set (a # ks)" "k2 \<in> set (a # ks)" "k1 \<noteq> k2" for k1 k2
    using that by (rule Cons.prems(3))
  show ?case
  proof (cases "k = a")
    case True
    have "fold body ks (body a b) q = (body a b) q"
    proof (rule fold_local_frame [where W = W and body = body and ks = ks and b = "body a b" and q = q])
      show "body k' b' q = b' q" if "k' \<in> set ks" "q \<notin> W k'" for k' b'
        using that w [of k' q b'] by simp
    next
      fix k' assume k': "k' \<in> set ks"
      then have "a \<noteq> k'" using dist(1) by blast
      then have "W a \<inter> W k' = {}" using k' d [of a k'] by simp
      then show "q \<notin> W k'" using Cons.prems(6) True by blast
    qed
    then show ?thesis by (simp add: True)
  next
    case False
    then have k: "k \<in> set ks" using Cons.prems(5) by simp
    have ih: "fold body ks (body a b) q = body k (body a b) q"
    proof (rule Cons.IH [where b = "body a b"])
      show "body k' b' q' = b' q'" if "k' \<in> set ks" "q' \<notin> W k'" for k' b' q'
        using that w [of k' q' b'] by simp
    next
      show "body k' b1 q' = body k' b2 q'"
        if "k' \<in> set ks" "q' \<in> W k'" "\<And>p. p \<in> W k' \<Longrightarrow> b1 p = b2 p" for k' b1 b2 q'
      proof (rule r)
        show "k' \<in> set (a # ks)" using that(1) by simp
        show "q' \<in> W k'" by (rule that(2))
        show "\<And>p. p \<in> W k' \<Longrightarrow> b1 p = b2 p" by (rule that(3))
      qed
    next
      show "W k1 \<inter> W k2 = {}" if "k1 \<in> set ks" "k2 \<in> set ks" "k1 \<noteq> k2" for k1 k2
        using that d [of k1 k2] by simp
    next
      show "distinct ks" by (rule dist(2))
      show "k \<in> set ks" by (rule k)
      show "q \<in> W k" by (rule Cons.prems(6))
    qed
    have "W k \<inter> W a = {}" using k False d [of k a] by simp
    then have agree: "body a b q' = b q'" if "q' \<in> W k" for q'
      using that w [of a q' b] by auto
    have "body k (body a b) q = body k b q"
    proof (rule r)
      show "k \<in> set (a # ks)" using k by simp
      show "q \<in> W k" by (rule Cons.prems(6))
      show "\<And>p. p \<in> W k \<Longrightarrow> body a b p = b p" by (rule agree)
    qed
    then show ?thesis using ih by simp
  qed
qed

lemma bfly4_m1_body_upd:
  "bfly4_m1_body p fout =
    (case radix4_combine (fout p) (fout (p + 1)) (fout (p + 2)) (fout (p + 3)) of
       (o0, o1, o2, o3) \<Rightarrow> fout(p := o0, p + 1 := o1, p + 2 := o2, p + 3 := o3))"
  by (simp add: bfly4_m1_body_def radix4_combine_def ldq_cpx_def Let_def
      cpx_add_def cpx_sub_def swap_neg_second_def swap_neg_first_def algebra_simps)

lemma bfly4_m1_loop_fold:
  "p = 4 * i \<Longrightarrow> bfly4_m1_loop n i p fout = fold (\<lambda>k. bfly4_m1_body (4 * k)) [i..n - 1] fout"
proof (induction n i p fout rule: bfly4_m1_loop.induct)
  case (1 n i p fout)
  show ?case
  proof (cases "i < n")
    case True
    then have u: "[i..n - 1] = i # [i + 1..n - 1]" by (simp add: upto_rec1)
    show ?thesis
      using True "1.IH" "1.prems" by (subst bfly4_m1_loop.simps) (simp add: u)
  next
    case False
    then show ?thesis by (subst bfly4_m1_loop.simps) simp
  qed
qed

lemma bfly4_m1_writes: "q \<notin> W4 k \<Longrightarrow> bfly4_m1_body (4 * k) b q = b q"
  by (simp add: bfly4_m1_body_upd W4_def split: prod.splits)

lemma bfly4_m1_reads:
  assumes that: "q \<in> W4 k" and "\<And>p. p \<in> W4 k \<Longrightarrow> b p = b' p"
  shows "bfly4_m1_body (4 * k) b q = bfly4_m1_body (4 * k) b' q"
proof -
  have "b (4 * k) = b' (4 * k)" "b (4 * k + 1) = b' (4 * k + 1)"
    "b (4 * k + 2) = b' (4 * k + 2)" "b (4 * k + 3) = b' (4 * k + 3)"
    by (rule assms(2), simp add: W4_def)+
  then show ?thesis using that
    by (auto simp: bfly4_m1_body_upd W4_def split: prod.splits)
qed

lemma W4_disjoint: "k \<noteq> k' \<Longrightarrow> W4 k \<inter> W4 k' = {}"
  by (auto simp: W4_def)

lemma kf_bfly4_m1_group:
  assumes "0 \<le> g" "g < n" "q \<in> W4 g"
  shows "kf_bfly4_m1 fout n q = bfly4_m1_body (4 * g) fout q"
  unfolding kf_bfly4_m1_def bfly4_m1_loop_fold [of 0 0 n fout, simplified]
proof (rule fold_local_value [where W = W4])
  show "\<And>k b q. k \<in> set [0..n - 1] \<Longrightarrow> q \<notin> W4 k \<Longrightarrow> bfly4_m1_body (4 * k) b q = b q"
    by (rule bfly4_m1_writes)
  show "\<And>k b b' q. k \<in> set [0..n - 1] \<Longrightarrow> q \<in> W4 k \<Longrightarrow> (\<And>q'. q' \<in> W4 k \<Longrightarrow> b q' = b' q')
      \<Longrightarrow> bfly4_m1_body (4 * k) b q = bfly4_m1_body (4 * k) b' q"
    by (rule bfly4_m1_reads)
  show "\<And>k k'. k \<in> set [0..n - 1] \<Longrightarrow> k' \<in> set [0..n - 1] \<Longrightarrow> k \<noteq> k' \<Longrightarrow> W4 k \<inter> W4 k' = {}"
    by (rule W4_disjoint)
  show "distinct [0..n - 1]" by simp
  show "g \<in> set [0..n - 1]" using assms by simp
  show "q \<in> W4 g" by (rule assms(3))
qed

lemma kf_bfly4_m1_frame:
  assumes "q < 0 \<or> 4 * n \<le> q"
  shows "kf_bfly4_m1 fout n q = fout q"
  unfolding kf_bfly4_m1_def bfly4_m1_loop_fold [of 0 0 n fout, simplified]
proof (rule fold_local_frame [where W = W4])
  show "\<And>k b. k \<in> set [0..n - 1] \<Longrightarrow> q \<notin> W4 k \<Longrightarrow> bfly4_m1_body (4 * k) b q = b q"
    by (rule bfly4_m1_writes)
  show "\<And>k. k \<in> set [0..n - 1] \<Longrightarrow> q \<notin> W4 k"
    using assms by (auto simp: W4_def)
qed

text \<open>
  Claim C7. For every \<open>n \<ge> 0\<close> and every group \<open>g\<close> in \<open>[0, n)\<close>, the four samples
  \<open>f0..f3\<close> at \<open>4 g .. 4 g + 3\<close> are replaced by the radix-4 combination: with
  \<open>a = f0 + f2\<close>, \<open>b = f1 + f3\<close>, \<open>s0 = f0 - f2\<close>, \<open>s1 = f1 - f3\<close>, the outputs are \<open>a + b\<close>,
  \<open>s0 + (s1.i, - s1.r)\<close>, \<open>a - b\<close>, \<open>s0 + (- s1.i, s1.r)\<close>, in this order. Samples outside
  \<open>[0, 4 n)\<close> are left as they were. No identity of the arithmetic is used.
\<close>
theorem kf_bfly4_m1_groups:
  "(0 \<le> g \<and> g < n \<longrightarrow>
      (kf_bfly4_m1 fout n (4 * g), kf_bfly4_m1 fout n (4 * g + 1),
       kf_bfly4_m1 fout n (4 * g + 2), kf_bfly4_m1 fout n (4 * g + 3)) =
      radix4_combine (fout (4 * g)) (fout (4 * g + 1)) (fout (4 * g + 2)) (fout (4 * g + 3))) \<and>
   (q < 0 \<or> 4 * n \<le> q \<longrightarrow> kf_bfly4_m1 fout n q = fout q)"
proof (intro conjI impI)
  assume g: "0 \<le> g \<and> g < n"
  have "kf_bfly4_m1 fout n q = bfly4_m1_body (4 * g) fout q" if "q \<in> W4 g" for q
    using g that by (intro kf_bfly4_m1_group) auto
  then show "(kf_bfly4_m1 fout n (4 * g), kf_bfly4_m1 fout n (4 * g + 1),
       kf_bfly4_m1 fout n (4 * g + 2), kf_bfly4_m1 fout n (4 * g + 3)) =
      radix4_combine (fout (4 * g)) (fout (4 * g + 1)) (fout (4 * g + 2)) (fout (4 * g + 3))"
    by (simp add: W4_def bfly4_m1_body_upd split: prod.splits)
next
  assume "q < 0 \<or> 4 * n \<le> q"
  then show "kf_bfly4_m1 fout n q = fout q" by (rule kf_bfly4_m1_frame)
qed

lemma bfly3_loop_fold:
  "bfly3_loop epi half sign n mm i fout = fold (bfly3_body epi half sign mm) [i..n - 1] fout"
proof (induction epi half sign n mm i fout rule: bfly3_loop.induct)
  case (1 epi half sign n mm i fout)
  show ?case
  proof (cases "i < n")
    case True
    then have u: "[i..n - 1] = i # [i + 1..n - 1]" by (simp add: upto_rec1)
    show ?thesis
      using True "1.IH" by (subst bfly3_loop.simps) (simp add: u)
  next
    case False
    then show ?thesis by (subst bfly3_loop.simps) simp
  qed
qed

lemma bfly3_writes: "q \<notin> W3 mm k \<Longrightarrow> bfly3_body (e0, e1) (h0, h1) (s0, s1) mm k b q = b q"
  by (simp add: bfly3_body_def ld_cpx_def Let_def W3_def)

lemma bfly3_reads:
  assumes "q \<in> W3 mm k" and "\<And>p. p \<in> W3 mm k \<Longrightarrow> b p = b' p"
  shows "bfly3_body (e0, e1) (h0, h1) (s0, s1) mm k b q = bfly3_body (e0, e1) (h0, h1) (s0, s1) mm k b' q"
proof -
  have "b (k * mm) = b' (k * mm)" "b (k * mm + 1) = b' (k * mm + 1)" "b (k * mm + 2) = b' (k * mm + 2)"
    by (rule assms(2), simp add: W3_def)+
  then show ?thesis using assms(1)
    by (auto simp: bfly3_body_def ld_cpx_def Let_def W3_def)
qed

lemma W3_disjoint: "3 \<le> mm \<Longrightarrow> k \<noteq> k' \<Longrightarrow> W3 mm k \<inter> W3 mm k' = {}"
proof -
  assume mm: "3 \<le> mm" and ne: "k \<noteq> k'"
  have "k < k' \<or> k' < k" using ne by arith
  then have "k * mm + 3 \<le> k' * mm \<or> k' * mm + 3 \<le> k * mm"
  proof
    assume "k < k'"
    then have "(k + 1) * mm \<le> k' * mm" using mm by (intro mult_right_mono) auto
    then show ?thesis using mm by (simp add: algebra_simps)
  next
    assume "k' < k"
    then have "(k' + 1) * mm \<le> k * mm" using mm by (intro mult_right_mono) auto
    then show ?thesis using mm by (simp add: algebra_simps)
  qed
  then show ?thesis by (auto simp: W3_def)
qed

lemma bfly3_body_combine:
  assumes "float_identities (+) (-) (*) uminus (1::'a::{plus,minus,times,uminus,one})"
  shows "bfly3_body (epi, epi) (half, half) (1, - 1) mm k (b :: 'a kissCpx mem) =
    (case radix3_combine epi half (b (k * mm)) (b (k * mm + 1)) (b (k * mm + 2)) of
       (o0, o1, o2) \<Rightarrow> b(k * mm := o0, k * mm + 1 := o1, k * mm + 2 := o2))"
proof -
  have l: "\<And>x::'a. x * 1 = x" "\<And>x::'a. x * (- 1) = - x" "\<And>x y::'a. (- x) * y = - (x * y)"
    and c: "\<And>x y::'a. x * y = y * x"
    using assms unfolding float_identities_def by blast+
  have e: "\<And>x::'a. epi * x = x * epi" "\<And>x::'a. half * x = x * half" by (rule c)+
  show ?thesis
    by (simp add: bfly3_body_def radix3_combine_def ld_cpx_def Let_def cpx_add_def cpx_sub_def
        cpx_scale_def swap_neg_second_def l e)
qed

lemma kf_bfly3_m1_group:
  assumes "0 \<le> g" "g < n" "3 \<le> mm \<or> n = 1" "q \<in> W3 mm g"
  shows "kf_bfly3_m1 fout tw fstride n mm q =
    bfly3_body (cpx_i (tw fstride), cpx_i (tw fstride)) (1 / (1 + 1), 1 / (1 + 1)) (1, - 1) mm g fout q"
proof -
  have n: "\<not> n \<le> 0" using assms by simp
  show ?thesis
    unfolding kf_bfly3_m1_def bfly3_loop_fold vdup_n_f32_def Let_def if_not_P [OF n]
  proof (rule fold_local_value [where W = "W3 mm"])
    show "\<And>k b q. k \<in> set [0..n - 1] \<Longrightarrow> q \<notin> W3 mm k \<Longrightarrow>
        bfly3_body (cpx_i (tw fstride), cpx_i (tw fstride)) (1 / (1 + 1), 1 / (1 + 1)) (1, - 1) mm k b q = b q"
      by (rule bfly3_writes)
    show "\<And>k b b' q. k \<in> set [0..n - 1] \<Longrightarrow> q \<in> W3 mm k \<Longrightarrow> (\<And>q'. q' \<in> W3 mm k \<Longrightarrow> b q' = b' q') \<Longrightarrow>
        bfly3_body (cpx_i (tw fstride), cpx_i (tw fstride)) (1 / (1 + 1), 1 / (1 + 1)) (1, - 1) mm k b q =
        bfly3_body (cpx_i (tw fstride), cpx_i (tw fstride)) (1 / (1 + 1), 1 / (1 + 1)) (1, - 1) mm k b' q"
      by (rule bfly3_reads)
    show "W3 mm k \<inter> W3 mm k' = {}" if "k \<in> set [0..n - 1]" "k' \<in> set [0..n - 1]" "k \<noteq> k'" for k k'
    proof (cases "3 \<le> mm")
      case True
      then show ?thesis using that(3) by (rule W3_disjoint)
    next
      case False
      then have "n = 1" using assms(3) by simp
      then show ?thesis using that by simp
    qed
    show "distinct [0..n - 1]" by simp
    show "g \<in> set [0..n - 1]" using assms by simp
    show "q \<in> W3 mm g" by (rule assms(4))
  qed
qed

text \<open>
  Claim C6. With \<open>epi = tw[fstride].i\<close>, for \<open>n \<ge> 1\<close> the call is the group bodies of the
  groups \<open>0, .., n - 1\<close> in this order, and the body of group \<open>g\<close>, based at \<open>g * mm\<close>, replaces
  \<open>(f0, f1, f2)\<close> of the buffer it is run on by \<open>f0 + sum\<close>, \<open>mid - rot\<close>, \<open>mid + rot\<close>, where
  \<open>sum = f1 + f2\<close>, \<open>diff = f1 - f2\<close>, \<open>mid = f0 - 0.5 * sum\<close> and \<open>rot = rotate90(diff) * epi\<close>,
  \<open>rotate90\<close> swapping the lanes and negating the second. When the groups are independent
  (\<open>mm \<ge> 3\<close>, or one group only), the buffer returned holds this combination of the
  samples passed in, for every group.
\<close>

theorem kf_bfly3_m1_groups:
  fixes fout :: "'a::{plus,minus,times,uminus,one,inverse} kissCpx mem"
  assumes "float_identities (+) (-) (*) uminus (1::'a)"
    and "0 \<le> g" "g < n"
  shows "kf_bfly3_m1 fout tw fstride n mm =
           fold (bfly3_body (vdup_n_f32 (cpx_i (tw fstride))) (vdup_n_f32 (1 / (1 + 1))) (1, - 1) mm)
             [0..n - 1] fout \<and>
         (bfly3_body (vdup_n_f32 (cpx_i (tw fstride))) (vdup_n_f32 (1 / (1 + 1))) (1, - 1) mm g b (g * mm),
          bfly3_body (vdup_n_f32 (cpx_i (tw fstride))) (vdup_n_f32 (1 / (1 + 1))) (1, - 1) mm g b (g * mm + 1),
          bfly3_body (vdup_n_f32 (cpx_i (tw fstride))) (vdup_n_f32 (1 / (1 + 1))) (1, - 1) mm g b (g * mm + 2)) =
           radix3_combine (cpx_i (tw fstride)) (1 / (1 + 1)) (b (g * mm)) (b (g * mm + 1)) (b (g * mm + 2)) \<and>
         (3 \<le> mm \<or> n = 1 \<longrightarrow>
           (kf_bfly3_m1 fout tw fstride n mm (g * mm),
            kf_bfly3_m1 fout tw fstride n mm (g * mm + 1),
            kf_bfly3_m1 fout tw fstride n mm (g * mm + 2)) =
           radix3_combine (cpx_i (tw fstride)) (1 / (1 + 1))
             (fout (g * mm)) (fout (g * mm + 1)) (fout (g * mm + 2)))"
proof (intro conjI impI)
  have n: "\<not> n \<le> 0" using assms by simp
  show "kf_bfly3_m1 fout tw fstride n mm =
           fold (bfly3_body (vdup_n_f32 (cpx_i (tw fstride))) (vdup_n_f32 (1 / (1 + 1))) (1, - 1) mm)
             [0..n - 1] fout"
    unfolding kf_bfly3_m1_def bfly3_loop_fold Let_def if_not_P [OF n] by (rule refl)
next
  show "(bfly3_body (vdup_n_f32 (cpx_i (tw fstride))) (vdup_n_f32 (1 / (1 + 1))) (1, - 1) mm g b (g * mm),
          bfly3_body (vdup_n_f32 (cpx_i (tw fstride))) (vdup_n_f32 (1 / (1 + 1))) (1, - 1) mm g b (g * mm + 1),
          bfly3_body (vdup_n_f32 (cpx_i (tw fstride))) (vdup_n_f32 (1 / (1 + 1))) (1, - 1) mm g b (g * mm + 2)) =
           radix3_combine (cpx_i (tw fstride)) (1 / (1 + 1)) (b (g * mm)) (b (g * mm + 1)) (b (g * mm + 2))"
    unfolding vdup_n_f32_def
    by (simp add: bfly3_body_combine [OF assms(1)] split: prod.splits)
next
  assume ind: "3 \<le> mm \<or> n = 1"
  have "kf_bfly3_m1 fout tw fstride n mm q =
    bfly3_body (cpx_i (tw fstride), cpx_i (tw fstride)) (1 / (1 + 1), 1 / (1 + 1)) (1, - 1) mm g fout q"
    if "q \<in> W3 mm g" for q
    using assms(2,3) ind that by (rule kf_bfly3_m1_group)
  then show "(kf_bfly3_m1 fout tw fstride n mm (g * mm),
            kf_bfly3_m1 fout tw fstride n mm (g * mm + 1),
            kf_bfly3_m1 fout tw fstride n mm (g * mm + 2)) =
           radix3_combine (cpx_i (tw fstride)) (1 / (1 + 1))
             (fout (g * mm)) (fout (g * mm + 1)) (fout (g * mm + 2))"
    by (simp add: W3_def bfly3_body_combine [OF assms(1)] split: prod.splits)
qed

theorem kf_bfly3_m1_groups_witness:
  "kf_bfly3_m1 (\<lambda>k. KissCpx (of_int k) (of_int (2 * k))) (\<lambda>k. KissCpx 0 (of_int k)) 3 2 3 3 = KissCpx (12 :: rat) 24 \<and>
   kf_bfly3_m1 (\<lambda>k. KissCpx (of_int k) (of_int (2 * k))) (\<lambda>k. KissCpx 0 (of_int k)) 3 2 3 4 = KissCpx (9 / 2 :: rat) (- 6) \<and>
   kf_bfly3_m1 (\<lambda>k. KissCpx (of_int k) (of_int (2 * k))) (\<lambda>k. KissCpx 0 (of_int k)) 3 2 3 5 = KissCpx (- 15 / 2 :: rat) 0"
  using kf_bfly3_m1_groups [where 'a = rat and g = 1 and n = 2 and mm = 3 and fstride = 3
      and fout = "\<lambda>k. KissCpx (of_int k) (of_int (2 * k))" and tw = "\<lambda>k. KissCpx 0 (of_int k)",
      THEN conjunct2, THEN conjunct2]
  by (simp add: float_identities_def radix3_combine_def cpx_add_def cpx_sub_def cpx_scale_def
      swap_neg_second_def Let_def)

theorem kf_bfly4_m1_groups_witness:
  "kf_bfly4_m1 (\<lambda>k. KissCpx k (2 * k)) 2 4 = KissCpx (22 :: int) 44 \<and>
   kf_bfly4_m1 (\<lambda>k. KissCpx k (2 * k)) 2 5 = KissCpx (- 6 :: int) (- 2) \<and>
   kf_bfly4_m1 (\<lambda>k. KissCpx k (2 * k)) 2 6 = KissCpx (- 2 :: int) (- 4) \<and>
   kf_bfly4_m1 (\<lambda>k. KissCpx k (2 * k)) 2 7 = KissCpx (2 :: int) (- 6) \<and>
   kf_bfly4_m1 (\<lambda>k. KissCpx k (2 * k)) 2 8 = KissCpx (8 :: int) 16"
  using kf_bfly4_m1_groups [where g = 1 and n = 2 and q = 8 and fout = "\<lambda>k. KissCpx k (2 * k) :: int kissCpx"]
  by (simp add: radix4_combine_def cpx_add_def cpx_sub_def swap_neg_second_def swap_neg_first_def Let_def)

lemma bfly5_loop_fold:
  "bfly5_loop ya_r yb_r ya_i yb_i sign n mm i fout =
     fold (bfly5_body ya_r yb_r ya_i yb_i sign mm) [i..n - 1] fout"
proof (induction ya_r yb_r ya_i yb_i sign n mm i fout rule: bfly5_loop.induct)
  case (1 ya_r yb_r ya_i yb_i sign n mm i fout)
  show ?case
  proof (cases "i < n")
    case True
    then have u: "[i..n - 1] = i # [i + 1..n - 1]" by (simp add: upto_rec1)
    show ?thesis
      using True "1.IH" by (subst bfly5_loop.simps) (simp add: u)
  next
    case False
    then show ?thesis by (subst bfly5_loop.simps) simp
  qed
qed

lemma bfly5_writes:
  "q \<notin> W5 mm k \<Longrightarrow> bfly5_body (ar0, ar1) (br0, br1) (ai0, ai1) (bi0, bi1) (s0, s1) mm k b q = b q"
  by (simp add: bfly5_body_def ld_cpx_def Let_def W5_def)

lemma bfly5_reads:
  assumes "q \<in> W5 mm k" and "\<And>p. p \<in> W5 mm k \<Longrightarrow> b p = b' p"
  shows "bfly5_body (ar0, ar1) (br0, br1) (ai0, ai1) (bi0, bi1) (s0, s1) mm k b q =
         bfly5_body (ar0, ar1) (br0, br1) (ai0, ai1) (bi0, bi1) (s0, s1) mm k b' q"
proof -
  have "b (k * mm) = b' (k * mm)" "b (k * mm + 1) = b' (k * mm + 1)" "b (k * mm + 2) = b' (k * mm + 2)"
    "b (k * mm + 3) = b' (k * mm + 3)" "b (k * mm + 4) = b' (k * mm + 4)"
    by (rule assms(2), simp add: W5_def)+
  then show ?thesis using assms(1)
    by (auto simp: bfly5_body_def ld_cpx_def Let_def W5_def)
qed

lemma W5_disjoint: "5 \<le> mm \<Longrightarrow> k \<noteq> k' \<Longrightarrow> W5 mm k \<inter> W5 mm k' = {}"
proof -
  assume mm: "5 \<le> mm" and ne: "k \<noteq> k'"
  have "k < k' \<or> k' < k" using ne by arith
  then have "k * mm + 5 \<le> k' * mm \<or> k' * mm + 5 \<le> k * mm"
  proof
    assume "k < k'"
    then have "(k + 1) * mm \<le> k' * mm" using mm by (intro mult_right_mono) auto
    then show ?thesis using mm by (simp add: algebra_simps)
  next
    assume "k' < k"
    then have "(k' + 1) * mm \<le> k * mm" using mm by (intro mult_right_mono) auto
    then show ?thesis using mm by (simp add: algebra_simps)
  qed
  then show ?thesis by (auto simp: W5_def)
qed

lemma float_identities_rules:
  assumes "float_identities (+) (-) (*) uminus (1::'a::{plus,minus,times,uminus,one})"
  shows "\<And>x::'a. x * 1 = x" "\<And>x::'a. 1 * x = x"
    "\<And>x::'a. x * (- 1) = - x" "\<And>x::'a. (- 1) * x = - x"
    "\<And>x y::'a. (- x) * y = - (x * y)" "\<And>x y::'a. x * (- y) = - (x * y)"
    "\<And>x y::'a. x + (- y) = x - y" "\<And>x y::'a. (- y) + x = x - y"
    "\<And>x y::'a. x - (- y) = x + y"
proof -
  have l: "\<And>x::'a. x * 1 = x" "\<And>x::'a. x * (- 1) = - x" "\<And>x y::'a. (- x) * y = - (x * y)"
    "\<And>x y::'a. x + (- y) = x - y" "\<And>x y::'a. x - (- y) = x + y"
    and ca: "\<And>x y::'a. x + y = y + x" and cm: "\<And>x y::'a. x * y = y * x"
    using assms unfolding float_identities_def by blast+
  show "\<And>x::'a. x * 1 = x" "\<And>x::'a. x * (- 1) = - x" "\<And>x y::'a. (- x) * y = - (x * y)"
    "\<And>x y::'a. x + (- y) = x - y" "\<And>x y::'a. x - (- y) = x + y"
    by (rule l)+
  show "\<And>x::'a. 1 * x = x" using cm [of 1] l(1) by simp
  show "\<And>x::'a. (- 1) * x = - x" using cm [of "- 1"] l(2) by simp
  show "\<And>x y::'a. x * (- y) = - (x * y)"
  proof -
    fix x y :: 'a
    have "x * (- y) = (- y) * x" by (rule cm)
    also have "\<dots> = - (y * x)" by (rule l(3))
    also have "y * x = x * y" by (rule cm)
    finally show "x * (- y) = - (x * y)" .
  qed
  show "\<And>x y::'a. (- y) + x = x - y" using ca [of "- y" for y] l(4) by simp
qed

lemma float_identities_comm:
  assumes "float_identities (+) (-) (*) uminus (1::'a::{plus,minus,times,uminus,one})"
  shows "\<And>x y::'a. x + y = y + x" "\<And>x y::'a. x * y = y * x"
  using assms unfolding float_identities_def by blast+

lemma bfly5_body_combine:
  assumes "float_identities (+) (-) (*) uminus (1::'a::{plus,minus,times,uminus,one})"
  shows "bfly5_body (cpx_r ya, cpx_r ya) (cpx_r yb, cpx_r yb) (cpx_i ya, cpx_i ya) (cpx_i yb, cpx_i yb)
           (1, - 1) mm k (b :: 'a kissCpx mem) =
    (case radix5_combine ya yb (b (k * mm)) (b (k * mm + 1)) (b (k * mm + 2)) (b (k * mm + 3)) (b (k * mm + 4)) of
       (o0, o1, o2, o3, o4) \<Rightarrow>
         b(k * mm := o0, k * mm + 1 := o1, k * mm + 2 := o2, k * mm + 3 := o3, k * mm + 4 := o4))"
  by (simp add: bfly5_body_def radix5_combine_def ld_cpx_def Let_def cpx_add_def cpx_sub_def
      cpx_scale_def swap_neg_second_def float_identities_rules [OF assms] float_identities_comm [OF assms])

lemma kf_bfly5_m1_group:
  assumes "0 \<le> g" "g < n" "5 \<le> mm \<or> n = 1" "q \<in> W5 mm g"
  shows "kf_bfly5_m1 fout tw fstride n mm q =
    bfly5_body (cpx_r (tw fstride), cpx_r (tw fstride)) (cpx_r (tw (2 * fstride)), cpx_r (tw (2 * fstride)))
      (cpx_i (tw fstride), cpx_i (tw fstride)) (cpx_i (tw (2 * fstride)), cpx_i (tw (2 * fstride)))
      (1, - 1) mm g fout q"
proof -
  have n: "\<not> n \<le> 0" using assms by simp
  show ?thesis
    unfolding kf_bfly5_m1_def bfly5_loop_fold vdup_n_f32_def Let_def if_not_P [OF n]
  proof (rule fold_local_value [where W = "W5 mm"])
    show "\<And>k b q. k \<in> set [0..n - 1] \<Longrightarrow> q \<notin> W5 mm k \<Longrightarrow>
        bfly5_body (cpx_r (tw fstride), cpx_r (tw fstride)) (cpx_r (tw (2 * fstride)), cpx_r (tw (2 * fstride)))
          (cpx_i (tw fstride), cpx_i (tw fstride)) (cpx_i (tw (2 * fstride)), cpx_i (tw (2 * fstride)))
          (1, - 1) mm k b q = b q"
      by (rule bfly5_writes)
    show "\<And>k b b' q. k \<in> set [0..n - 1] \<Longrightarrow> q \<in> W5 mm k \<Longrightarrow> (\<And>q'. q' \<in> W5 mm k \<Longrightarrow> b q' = b' q') \<Longrightarrow>
        bfly5_body (cpx_r (tw fstride), cpx_r (tw fstride)) (cpx_r (tw (2 * fstride)), cpx_r (tw (2 * fstride)))
          (cpx_i (tw fstride), cpx_i (tw fstride)) (cpx_i (tw (2 * fstride)), cpx_i (tw (2 * fstride)))
          (1, - 1) mm k b q =
        bfly5_body (cpx_r (tw fstride), cpx_r (tw fstride)) (cpx_r (tw (2 * fstride)), cpx_r (tw (2 * fstride)))
          (cpx_i (tw fstride), cpx_i (tw fstride)) (cpx_i (tw (2 * fstride)), cpx_i (tw (2 * fstride)))
          (1, - 1) mm k b' q"
      by (rule bfly5_reads)
    show "W5 mm k \<inter> W5 mm k' = {}" if "k \<in> set [0..n - 1]" "k' \<in> set [0..n - 1]" "k \<noteq> k'" for k k'
    proof (cases "5 \<le> mm")
      case True
      then show ?thesis using that(3) by (rule W5_disjoint)
    next
      case False
      then have "n = 1" using assms(3) by simp
      then show ?thesis using that by simp
    qed
    show "distinct [0..n - 1]" by simp
    show "g \<in> set [0..n - 1]" using assms by simp
    show "q \<in> W5 mm g" by (rule assms(4))
  qed
qed

text \<open>
  Claim C8. With \<open>ya = tw[fstride]\<close>, \<open>yb = tw[2 * fstride]\<close>, for \<open>n \<ge> 1\<close> the call is the
  group bodies of the groups \<open>0, .., n - 1\<close> in this order, and the body of group \<open>g\<close>, based
  at \<open>g * mm\<close>, replaces the five samples of the buffer it is run on by \<open>f0 + (s_a + s_b)\<close>,
  \<open>c1 - o1\<close>, \<open>c2 + o2\<close>, \<open>c2 - o2\<close>, \<open>c1 + o1\<close>, where \<open>s_a = f1 + f4\<close>, \<open>d_a = f1 - f4\<close>,
  \<open>s_b = f2 + f3\<close>, \<open>d_b = f2 - f3\<close>, \<open>c1 = f0 + (ya.r * s_a + yb.r * s_b)\<close>,
  \<open>c2 = f0 + (yb.r * s_a + ya.r * s_b)\<close>, and the offsets \<open>o1\<close>, \<open>o2\<close> are the lane-swapped
  \<open>ya.i * d_a + yb.i * d_b\<close> and \<open>ya.i * d_b - yb.i * d_a\<close> with the second lane negated. When
  the groups are independent (\<open>mm \<ge> 5\<close>, or one group only), the buffer returned holds this
  combination of the samples passed in, for every group.
\<close>

theorem kf_bfly5_m1_groups:
  fixes fout :: "'a::{plus,minus,times,uminus,one} kissCpx mem"
  assumes "float_identities (+) (-) (*) uminus (1::'a)"
    and "0 \<le> g" "g < n"
  shows "kf_bfly5_m1 fout tw fstride n mm =
           fold (bfly5_body (vdup_n_f32 (cpx_r (tw fstride))) (vdup_n_f32 (cpx_r (tw (2 * fstride))))
                   (vdup_n_f32 (cpx_i (tw fstride))) (vdup_n_f32 (cpx_i (tw (2 * fstride)))) (1, - 1) mm)
             [0..n - 1] fout \<and>
         (let body = bfly5_body (vdup_n_f32 (cpx_r (tw fstride))) (vdup_n_f32 (cpx_r (tw (2 * fstride))))
                   (vdup_n_f32 (cpx_i (tw fstride))) (vdup_n_f32 (cpx_i (tw (2 * fstride)))) (1, - 1) mm g b
          in (body (g * mm), body (g * mm + 1), body (g * mm + 2), body (g * mm + 3), body (g * mm + 4)) =
             radix5_combine (tw fstride) (tw (2 * fstride))
               (b (g * mm)) (b (g * mm + 1)) (b (g * mm + 2)) (b (g * mm + 3)) (b (g * mm + 4))) \<and>
         (5 \<le> mm \<or> n = 1 \<longrightarrow>
           (kf_bfly5_m1 fout tw fstride n mm (g * mm),
            kf_bfly5_m1 fout tw fstride n mm (g * mm + 1),
            kf_bfly5_m1 fout tw fstride n mm (g * mm + 2),
            kf_bfly5_m1 fout tw fstride n mm (g * mm + 3),
            kf_bfly5_m1 fout tw fstride n mm (g * mm + 4)) =
           radix5_combine (tw fstride) (tw (2 * fstride))
             (fout (g * mm)) (fout (g * mm + 1)) (fout (g * mm + 2)) (fout (g * mm + 3)) (fout (g * mm + 4)))"
proof (intro conjI impI)
  have n: "\<not> n \<le> 0" using assms by simp
  show "kf_bfly5_m1 fout tw fstride n mm =
           fold (bfly5_body (vdup_n_f32 (cpx_r (tw fstride))) (vdup_n_f32 (cpx_r (tw (2 * fstride))))
                   (vdup_n_f32 (cpx_i (tw fstride))) (vdup_n_f32 (cpx_i (tw (2 * fstride)))) (1, - 1) mm)
             [0..n - 1] fout"
    unfolding kf_bfly5_m1_def bfly5_loop_fold Let_def if_not_P [OF n] by (rule refl)
next
  show "let body = bfly5_body (vdup_n_f32 (cpx_r (tw fstride))) (vdup_n_f32 (cpx_r (tw (2 * fstride))))
                   (vdup_n_f32 (cpx_i (tw fstride))) (vdup_n_f32 (cpx_i (tw (2 * fstride)))) (1, - 1) mm g b
          in (body (g * mm), body (g * mm + 1), body (g * mm + 2), body (g * mm + 3), body (g * mm + 4)) =
             radix5_combine (tw fstride) (tw (2 * fstride))
               (b (g * mm)) (b (g * mm + 1)) (b (g * mm + 2)) (b (g * mm + 3)) (b (g * mm + 4))"
    unfolding vdup_n_f32_def Let_def
    by (simp add: bfly5_body_combine [OF assms(1)] split: prod.splits)
next
  assume ind: "5 \<le> mm \<or> n = 1"
  have "kf_bfly5_m1 fout tw fstride n mm q =
    bfly5_body (cpx_r (tw fstride), cpx_r (tw fstride)) (cpx_r (tw (2 * fstride)), cpx_r (tw (2 * fstride)))
      (cpx_i (tw fstride), cpx_i (tw fstride)) (cpx_i (tw (2 * fstride)), cpx_i (tw (2 * fstride)))
      (1, - 1) mm g fout q"
    if "q \<in> W5 mm g" for q
    using assms(2,3) ind that by (rule kf_bfly5_m1_group)
  then show "(kf_bfly5_m1 fout tw fstride n mm (g * mm),
            kf_bfly5_m1 fout tw fstride n mm (g * mm + 1),
            kf_bfly5_m1 fout tw fstride n mm (g * mm + 2),
            kf_bfly5_m1 fout tw fstride n mm (g * mm + 3),
            kf_bfly5_m1 fout tw fstride n mm (g * mm + 4)) =
           radix5_combine (tw fstride) (tw (2 * fstride))
             (fout (g * mm)) (fout (g * mm + 1)) (fout (g * mm + 2)) (fout (g * mm + 3)) (fout (g * mm + 4))"
    by (simp add: W5_def bfly5_body_combine [OF assms(1)] split: prod.splits)
qed

theorem kf_bfly5_m1_groups_witness:
  "kf_bfly5_m1 (\<lambda>k. KissCpx k (2 * k)) (\<lambda>k. KissCpx k (k + 1)) 1 2 5 5 = KissCpx (35 :: int) 70 \<and>
   kf_bfly5_m1 (\<lambda>k. KissCpx k (2 * k)) (\<lambda>k. KissCpx k (k + 1)) 1 2 5 6 = KissCpx (68 :: int) 91 \<and>
   kf_bfly5_m1 (\<lambda>k. KissCpx k (2 * k)) (\<lambda>k. KissCpx k (k + 1)) 1 2 5 7 = KissCpx (64 :: int) 93 \<and>
   kf_bfly5_m1 (\<lambda>k. KissCpx k (2 * k)) (\<lambda>k. KissCpx k (k + 1)) 1 2 5 8 = KissCpx (36 :: int) 107 \<and>
   kf_bfly5_m1 (\<lambda>k. KissCpx k (2 * k)) (\<lambda>k. KissCpx k (k + 1)) 1 2 5 9 = KissCpx (32 :: int) 109"
  using kf_bfly5_m1_groups [where 'a = int and g = 1 and n = 2 and mm = 5 and fstride = 1
      and fout = "\<lambda>k. KissCpx k (2 * k)" and tw = "\<lambda>k. KissCpx k (k + 1)",
      THEN conjunct2, THEN conjunct2]
  by (simp add: float_identities_def radix5_combine_def cpx_add_def cpx_sub_def cpx_scale_def
      swap_neg_second_def Let_def)

lemma bfly4_pair_body_eq:
  assumes "2 \<le> m"
  shows "bfly4_pair_body tw m f tw1 tw2 tw3 b =
    bfly4_single_body tw m (f + 1) (tw1 + 1) (tw2 + 2) (tw3 + 3) (bfly4_single_body tw m f tw1 tw2 tw3 b)"
proof -
  have ne: "f + 1 \<noteq> f + m" "f + 1 \<noteq> f + 2 * m" "f + 1 \<noteq> f + 3 * m"
    "f + 1 + m \<noteq> f" "f + 1 + m \<noteq> f + m" "f + 1 + m \<noteq> f + 2 * m" "f + 1 + m \<noteq> f + 3 * m"
    "f + 1 + 2 * m \<noteq> f" "f + 1 + 2 * m \<noteq> f + m" "f + 1 + 2 * m \<noteq> f + 2 * m" "f + 1 + 2 * m \<noteq> f + 3 * m"
    "f + 1 + 3 * m \<noteq> f" "f + 1 + 3 * m \<noteq> f + m" "f + 1 + 3 * m \<noteq> f + 2 * m" "f + 1 + 3 * m \<noteq> f + 3 * m"
    using assms by simp_all
  show ?thesis
    unfolding bfly4_pair_body_def bfly4_single_body_def ldq_cpx_def ld_cpx_def cadd2_def csub2_def Let_def
    using ne assms by (auto simp: fun_eq_iff algebra_simps)
qed

lemma bfly4_pair_then_single:
  assumes "0 \<le> j"
  shows "(case bfly4_pair_loop tw m j f tw1 tw2 tw3 b of
      (j', f', tw1', tw2', tw3', b') \<Rightarrow> bfly4_single_loop tw m 1 j' f' tw1' tw2' tw3' b') =
    bfly4_single_loop tw m 1 j f tw1 tw2 tw3 b"
  using assms
proof (induction tw m j f tw1 tw2 tw3 b rule: bfly4_pair_loop.induct)
  case (1 tw m j f tw1 tw2 tw3 b)
  show ?case
  proof (cases "j + 1 < m")
    case True
    have two: "bfly4_single_loop tw m 1 j f tw1 tw2 tw3 b =
      bfly4_single_loop tw m 1 (j + 2) (f + 2) (tw1 + 2) (tw2 + 4) (tw3 + 6)
        (bfly4_single_body tw m (f + 1) (tw1 + 1) (tw2 + 2) (tw3 + 3) (bfly4_single_body tw m f tw1 tw2 tw3 b))"
      using True
      by (subst bfly4_single_loop.simps, subst bfly4_single_loop.simps) (simp add: add.assoc)
    have body: "bfly4_pair_body tw m f tw1 tw2 tw3 b =
      bfly4_single_body tw m (f + 1) (tw1 + 1) (tw2 + 2) (tw3 + 3) (bfly4_single_body tw m f tw1 tw2 tw3 b)"
      using True "1.prems" by (intro bfly4_pair_body_eq) simp
    have ih: "(case bfly4_pair_loop tw m (j + 2) (f + 2) (tw1 + 2) (tw2 + 4) (tw3 + 6) (bfly4_pair_body tw m f tw1 tw2 tw3 b) of
        (j', f', tw1', tw2', tw3', b') \<Rightarrow> bfly4_single_loop tw m 1 j' f' tw1' tw2' tw3' b') =
      bfly4_single_loop tw m 1 (j + 2) (f + 2) (tw1 + 2) (tw2 + 4) (tw3 + 6) (bfly4_pair_body tw m f tw1 tw2 tw3 b)"
      using True "1.prems" by (intro "1.IH") simp_all
    show ?thesis
      using True ih two
      by (subst bfly4_pair_loop.simps) (simp add: body)
  next
    case False
    then show ?thesis
      by (subst bfly4_pair_loop.simps) simp
  qed
qed

lemma bfly4_fast_group_eq: "bfly4_fast_group tw m mm i b = bfly4_general_group tw m 1 mm i b"
  unfolding bfly4_fast_group_def bfly4_general_group_def
  by (rule bfly4_pair_then_single) simp

lemma bfly4_fast_path_eq: "bfly4_fast_path tw m n mm i b = bfly4_general_path tw m n 1 mm i b"
proof (induction tw m n mm i b rule: bfly4_fast_path.induct)
  case (1 tw m n mm i fout)
  show ?case
  proof (cases "i < n")
    case True
    then show ?thesis
      using "1.IH"
      by (subst bfly4_fast_path.simps, subst bfly4_general_path.simps) (simp add: bfly4_fast_group_eq)
  next
    case False
    then show ?thesis
      by (subst bfly4_fast_path.simps, subst bfly4_general_path.simps) simp
  qed
qed

text \<open>
  Claim C5. Called with \<open>fstride = 1\<close>, the kernel runs its fast path (pair loop and scalar
  remainder), and the buffer it returns is the buffer that the general-stride loop returns
  when run with \<open>fstride = 1\<close> on the same buffer, twiddles, \<open>m\<close>, \<open>n\<close> and \<open>mm\<close>. The equality is
  over uninterpreted operations.
\<close>
theorem kf_bfly4_mx_fast_path:
  "kf_bfly4_mx fout tw m n 1 mm = bfly4_fast_path tw m n mm 0 fout \<and>
   bfly4_fast_path tw m n mm 0 fout = bfly4_general_path tw m n 1 mm 0 fout"
  by (simp add: kf_bfly4_mx_def bfly4_fast_path_eq)

lemma kf_bfly4_mx_general:
  "kf_bfly4_mx fout tw m n fstride mm = bfly4_general_path tw m n fstride mm 0 fout"
  by (simp add: kf_bfly4_mx_def bfly4_fast_path_eq)

lemma bfly4_single_loop_fold:
  assumes "f = base + j" "tw1 = j * s" "tw2 = j * (s * 2)" "tw3 = j * (s * 3)"
  shows "bfly4_single_loop tw m s j f tw1 tw2 tw3 b =
    fold (\<lambda>j'. bfly4_single_body tw m (base + j') (j' * s) (j' * (s * 2)) (j' * (s * 3))) [j..m - 1] b"
  using assms
proof (induction tw m s j f tw1 tw2 tw3 b rule: bfly4_single_loop.induct)
  case (1 tw m s j f tw1 tw2 tw3 b)
  show ?case
  proof (cases "j < m")
    case True
    then have u: "[j..m - 1] = j # [j + 1..m - 1]" by (simp add: upto_rec1)
    have ih: "bfly4_single_loop tw m s (j + 1) (f + 1) (tw1 + s) (tw2 + s * 2) (tw3 + s * 3)
        (bfly4_single_body tw m f tw1 tw2 tw3 b) =
      fold (\<lambda>j'. bfly4_single_body tw m (base + j') (j' * s) (j' * (s * 2)) (j' * (s * 3))) [j + 1..m - 1]
        (bfly4_single_body tw m f tw1 tw2 tw3 b)"
      using True "1.prems" by (intro "1.IH") (simp_all add: algebra_simps)
    show ?thesis
      unfolding u using True ih "1.prems"
      by (subst bfly4_single_loop.simps) simp
  next
    case False
    then show ?thesis by (subst bfly4_single_loop.simps) simp
  qed
qed

lemma bfly4_general_path_fold:
  "bfly4_general_path tw m n s mm i b = fold (bfly4_general_group tw m s mm) [i..n - 1] b"
proof (induction tw m n s mm i b rule: bfly4_general_path.induct)
  case (1 tw m n s mm i b)
  show ?case
  proof (cases "i < n")
    case True
    then have u: "[i..n - 1] = i # [i + 1..n - 1]" by (simp add: upto_rec1)
    show ?thesis
      using True "1.IH" by (subst bfly4_general_path.simps) (simp add: u)
  next
    case False
    then show ?thesis by (subst bfly4_general_path.simps) simp
  qed
qed

lemma bfly4_single_writes:
  "q \<notin> WJ m base j \<Longrightarrow> bfly4_single_body tw m (base + j) t1 t2 t3 b q = b q"
  by (simp add: bfly4_single_body_def ld_cpx_def cadd2_def csub2_def Let_def WJ_def)

lemma bfly4_single_reads:
  assumes "q \<in> WJ m base j" and "\<And>p. p \<in> WJ m base j \<Longrightarrow> b p = b' p"
  shows "bfly4_single_body tw m (base + j) t1 t2 t3 b q = bfly4_single_body tw m (base + j) t1 t2 t3 b' q"
proof -
  have "b (base + j) = b' (base + j)" "b (base + j + m) = b' (base + j + m)"
    "b (base + j + 2 * m) = b' (base + j + 2 * m)" "b (base + j + 3 * m) = b' (base + j + 3 * m)"
    by (rule assms(2), simp add: WJ_def)+
  then show ?thesis using assms(1)
    by (auto simp: bfly4_single_body_def ld_cpx_def cadd2_def csub2_def Let_def WJ_def)
qed

lemma WJ_disjoint:
  assumes "0 \<le> j" "j < m" "0 \<le> j'" "j' < m" "j \<noteq> j'"
  shows "WJ m base j \<inter> WJ m base j' = {}"
  using assms by (auto simp: WJ_def)

lemma WJ_subset_WG: "0 \<le> j \<Longrightarrow> j < m \<Longrightarrow> WJ m (i * mm) j \<subseteq> WG m mm i"
  by (auto simp: WJ_def WG_def)

lemma WG_cover:
  assumes "q \<in> WG m mm i"
  shows "\<exists>j. 0 \<le> j \<and> j < m \<and> q \<in> WJ m (i * mm) j"
proof -
  have m: "0 < m" using assms by (auto simp: WG_def)
  define d where "d = q - i * mm"
  define r where "r = d mod m"
  define k where "k = d div m"
  have d: "0 \<le> d" "d < 4 * m" using assms by (auto simp: WG_def d_def)
  have dm: "d = r + k * m" by (simp add: r_def k_def)
  have r: "0 \<le> r" "r < m" using m by (simp_all add: r_def)
  have "0 \<le> k" using d m by (simp add: k_def pos_imp_zdiv_nonneg_iff)
  moreover have "k < 4"
  proof (rule ccontr)
    assume "\<not> k < 4"
    then have "4 * m \<le> k * m" using m by (intro mult_right_mono) auto
    then have "4 * m \<le> d" using dm r by linarith
    then show False using d by simp
  qed
  ultimately have "k = 0 \<or> k = 1 \<or> k = 2 \<or> k = 3" by arith
  then have "d = r \<or> d = r + m \<or> d = r + 2 * m \<or> d = r + 3 * m"
    using dm by auto
  then have "q \<in> WJ m (i * mm) r" unfolding WJ_def d_def by auto
  then show ?thesis using r by blast
qed

lemma WG_disjoint:
  assumes "4 * m \<le> mm" "i \<noteq> i'"
  shows "WG m mm i \<inter> WG m mm i' = {}"
proof (cases "0 < m")
  case False
  then show ?thesis by (auto simp: WG_def)
next
  case True
  have "i < i' \<or> i' < i" using assms(2) by arith
  then have "i * mm + 4 * m \<le> i' * mm \<or> i' * mm + 4 * m \<le> i * mm"
  proof
    assume "i < i'"
    then have "(i + 1) * mm \<le> i' * mm" using assms(1) True by (intro mult_right_mono) auto
    then show ?thesis using assms(1) by (simp add: algebra_simps)
  next
    assume "i' < i"
    then have "(i' + 1) * mm \<le> i * mm" using assms(1) True by (intro mult_right_mono) auto
    then show ?thesis using assms(1) by (simp add: algebra_simps)
  qed
  then show ?thesis by (auto simp: WG_def)
qed

lemma bfly4_general_group_fold:
  "bfly4_general_group tw m s mm i b =
    fold (\<lambda>j. bfly4_single_body tw m (i * mm + j) (j * s) (j * (s * 2)) (j * (s * 3))) [0..m - 1] b"
  unfolding bfly4_general_group_def by (rule bfly4_single_loop_fold) simp_all

lemma bfly4_group_value:
  assumes "0 \<le> j" "j < m" "q \<in> WJ m (i * mm) j"
  shows "bfly4_general_group tw m s mm i b q =
    bfly4_single_body tw m (i * mm + j) (j * s) (j * (s * 2)) (j * (s * 3)) b q"
  unfolding bfly4_general_group_fold
proof (rule fold_local_value [where W = "WJ m (i * mm)"])
  show "\<And>k b q. k \<in> set [0..m - 1] \<Longrightarrow> q \<notin> WJ m (i * mm) k \<Longrightarrow>
      bfly4_single_body tw m (i * mm + k) (k * s) (k * (s * 2)) (k * (s * 3)) b q = b q"
    by (rule bfly4_single_writes)
  show "\<And>k b b' q. k \<in> set [0..m - 1] \<Longrightarrow> q \<in> WJ m (i * mm) k \<Longrightarrow>
      (\<And>q'. q' \<in> WJ m (i * mm) k \<Longrightarrow> b q' = b' q') \<Longrightarrow>
      bfly4_single_body tw m (i * mm + k) (k * s) (k * (s * 2)) (k * (s * 3)) b q =
      bfly4_single_body tw m (i * mm + k) (k * s) (k * (s * 2)) (k * (s * 3)) b' q"
    by (rule bfly4_single_reads)
  show "WJ m (i * mm) k \<inter> WJ m (i * mm) k' = {}"
    if "k \<in> set [0..m - 1]" "k' \<in> set [0..m - 1]" "k \<noteq> k'" for k k'
    using that by (intro WJ_disjoint) simp_all
  show "distinct [0..m - 1]" by simp
  show "j \<in> set [0..m - 1]" using assms by simp
  show "q \<in> WJ m (i * mm) j" by (rule assms(3))
qed

lemma bfly4_group_writes:
  assumes "q \<notin> WG m mm i"
  shows "bfly4_general_group tw m s mm i b q = b q"
  unfolding bfly4_general_group_fold
proof (rule fold_local_frame [where W = "WJ m (i * mm)"])
  show "\<And>k b. k \<in> set [0..m - 1] \<Longrightarrow> q \<notin> WJ m (i * mm) k \<Longrightarrow>
      bfly4_single_body tw m (i * mm + k) (k * s) (k * (s * 2)) (k * (s * 3)) b q = b q"
    by (rule bfly4_single_writes)
  show "q \<notin> WJ m (i * mm) k" if "k \<in> set [0..m - 1]" for k
  proof -
    have "WJ m (i * mm) k \<subseteq> WG m mm i" using that by (intro WJ_subset_WG) simp_all
    then show ?thesis using assms by blast
  qed
qed

lemma bfly4_group_reads:
  assumes "q \<in> WG m mm i" and agree: "\<And>p. p \<in> WG m mm i \<Longrightarrow> b p = b' p"
  shows "bfly4_general_group tw m s mm i b q = bfly4_general_group tw m s mm i b' q"
proof -
  obtain j where j: "0 \<le> j" "j < m" "q \<in> WJ m (i * mm) j"
    using WG_cover [OF assms(1)] by blast
  have sub: "WJ m (i * mm) j \<subseteq> WG m mm i" using j by (intro WJ_subset_WG)
  have "bfly4_single_body tw m (i * mm + j) (j * s) (j * (s * 2)) (j * (s * 3)) b q =
        bfly4_single_body tw m (i * mm + j) (j * s) (j * (s * 2)) (j * (s * 3)) b' q"
  proof (rule bfly4_single_reads)
    show "q \<in> WJ m (i * mm) j" by (rule j(3))
    show "b p = b' p" if "p \<in> WJ m (i * mm) j" for p
      using that sub by (intro agree) blast
  qed
  then show ?thesis
    by (simp only: bfly4_group_value [OF j])
qed

lemma kf_bfly4_mx_group:
  assumes "0 \<le> i" "i < n" "4 * m \<le> mm \<or> n = 1" "q \<in> WG m mm i"
  shows "kf_bfly4_mx fout tw m n fstride mm q = bfly4_general_group tw m fstride mm i fout q"
  unfolding kf_bfly4_mx_general bfly4_general_path_fold
proof (rule fold_local_value [where W = "WG m mm"])
  show "\<And>k b q. k \<in> set [0..n - 1] \<Longrightarrow> q \<notin> WG m mm k \<Longrightarrow> bfly4_general_group tw m fstride mm k b q = b q"
    by (rule bfly4_group_writes)
  show "\<And>k b b' q. k \<in> set [0..n - 1] \<Longrightarrow> q \<in> WG m mm k \<Longrightarrow> (\<And>q'. q' \<in> WG m mm k \<Longrightarrow> b q' = b' q') \<Longrightarrow>
      bfly4_general_group tw m fstride mm k b q = bfly4_general_group tw m fstride mm k b' q"
    by (rule bfly4_group_reads)
  show "WG m mm k \<inter> WG m mm k' = {}" if "k \<in> set [0..n - 1]" "k' \<in> set [0..n - 1]" "k \<noteq> k'" for k k'
  proof (cases "4 * m \<le> mm")
    case True
    then show ?thesis using that(3) by (rule WG_disjoint)
  next
    case False
    then have "n = 1" using assms(3) by simp
    then show ?thesis using that by simp
  qed
  show "distinct [0..n - 1]" by simp
  show "i \<in> set [0..n - 1]" using assms by simp
  show "q \<in> WG m mm i" by (rule assms(4))
qed

lemma bfly4_single_body_combine:
  assumes "float_identities (+) (-) (*) uminus (1::'a::{plus,minus,times,uminus,one})"
  shows "bfly4_single_body tw m f t1 t2 t3 (b :: 'a kissCpx mem) =
    (case radix4_combine (b f) (cpx_mul (b (f + m)) (tw t1)) (cpx_mul (b (f + 2 * m)) (tw t2))
            (cpx_mul (b (f + 3 * m)) (tw t3)) of
       (o0, o1, o2, o3) \<Rightarrow> b(f := o0, f + m := o1, f + 2 * m := o2, f + 3 * m := o3))"
  by (simp add: bfly4_single_body_def radix4_combine_def ld_cpx_def cadd2_def csub2_def Let_def
      cpx_add_def cpx_sub_def cpx_mul_def swap_neg_second_def swap_neg_first_def
      float_identities_rules [OF assms] float_identities_comm [OF assms])

text \<open>
  Claim C4. For any \<open>fstride\<close> (the fast path of \<open>fstride = 1\<close> included) the call is the
  group loops of the groups \<open>0, .., n - 1\<close> in this order. For \<open>n \<ge> 1\<close>, \<open>m \<ge> 1\<close>, the loop of
  group \<open>i\<close>, based at \<open>f = i * mm\<close>, replaces at every position \<open>j\<close> in \<open>[0, m)\<close> the samples
  \<open>f[j]\<close>, \<open>f[j + m]\<close>, \<open>f[j + 2 m]\<close>, \<open>f[j + 3 m]\<close> of the buffer it is run on by the radix-4
  combination of \<open>f[j]\<close> and the complex products of the other three with the twiddles at
  \<open>j * fstride\<close>, \<open>j * 2 * fstride\<close>, \<open>j * 3 * fstride\<close>. When the groups are independent
  (\<open>mm \<ge> 4 m\<close>, or one group only), the buffer returned holds this combination of the
  samples passed in, for every group and position.
\<close>

theorem kf_bfly4_mx_positions:
  fixes fout :: "'a::{plus,minus,times,uminus,one} kissCpx mem"
  assumes "float_identities (+) (-) (*) uminus (1::'a)"
    and "0 \<le> i" "i < n" "0 \<le> j" "j < m"
  shows "kf_bfly4_mx fout tw m n fstride mm =
           fold (bfly4_general_group tw m fstride mm) [0..n - 1] fout \<and>
         (let grp = bfly4_general_group tw m fstride mm i b; f = i * mm
          in (grp (f + j), grp (f + j + m), grp (f + j + 2 * m), grp (f + j + 3 * m)) =
             radix4_combine (b (f + j))
               (cpx_mul (b (f + j + m)) (tw (j * fstride)))
               (cpx_mul (b (f + j + 2 * m)) (tw (j * 2 * fstride)))
               (cpx_mul (b (f + j + 3 * m)) (tw (j * 3 * fstride)))) \<and>
         (4 * m \<le> mm \<or> n = 1 \<longrightarrow>
           (kf_bfly4_mx fout tw m n fstride mm (i * mm + j),
            kf_bfly4_mx fout tw m n fstride mm (i * mm + j + m),
            kf_bfly4_mx fout tw m n fstride mm (i * mm + j + 2 * m),
            kf_bfly4_mx fout tw m n fstride mm (i * mm + j + 3 * m)) =
           radix4_combine (fout (i * mm + j))
             (cpx_mul (fout (i * mm + j + m)) (tw (j * fstride)))
             (cpx_mul (fout (i * mm + j + 2 * m)) (tw (j * 2 * fstride)))
             (cpx_mul (fout (i * mm + j + 3 * m)) (tw (j * 3 * fstride))))"
proof (intro conjI impI)
  show "kf_bfly4_mx fout tw m n fstride mm =
           fold (bfly4_general_group tw m fstride mm) [0..n - 1] fout"
    unfolding kf_bfly4_mx_general bfly4_general_path_fold by (rule refl)
next
  have m: "0 < m" using assms(4,5) by simp
  have t: "j * 2 * fstride = j * (fstride * 2)" "j * 3 * fstride = j * (fstride * 3)" by simp_all
  have g: "bfly4_general_group tw m fstride mm i b q =
      bfly4_single_body tw m (i * mm + j) (j * fstride) (j * (fstride * 2)) (j * (fstride * 3)) b q"
    if "q = i * mm + j \<or> q = i * mm + j + m \<or> q = i * mm + j + 2 * m \<or> q = i * mm + j + 3 * m" for q
    using that by (intro bfly4_group_value assms(4,5)) (auto simp: WJ_def)
  show "let grp = bfly4_general_group tw m fstride mm i b; f = i * mm
          in (grp (f + j), grp (f + j + m), grp (f + j + 2 * m), grp (f + j + 3 * m)) =
             radix4_combine (b (f + j))
               (cpx_mul (b (f + j + m)) (tw (j * fstride)))
               (cpx_mul (b (f + j + 2 * m)) (tw (j * 2 * fstride)))
               (cpx_mul (b (f + j + 3 * m)) (tw (j * 3 * fstride)))"
    unfolding t Let_def using m
    by (simp add: g bfly4_single_body_combine [OF assms(1)] split: prod.splits)
next
  assume ind: "4 * m \<le> mm \<or> n = 1"
  have sub: "WJ m (i * mm) j \<subseteq> WG m mm i" using assms(4,5) by (intro WJ_subset_WG)
  have "kf_bfly4_mx fout tw m n fstride mm q =
      bfly4_single_body tw m (i * mm + j) (j * fstride) (j * (fstride * 2)) (j * (fstride * 3)) fout q"
    if "q \<in> WJ m (i * mm) j" for q
  proof -
    have "q \<in> WG m mm i" using that sub by blast
    then have "kf_bfly4_mx fout tw m n fstride mm q = bfly4_general_group tw m fstride mm i fout q"
      using assms(2,3) ind by (intro kf_bfly4_mx_group)
    then show ?thesis using bfly4_group_value [OF assms(4,5) that] by simp
  qed
  then have v: "kf_bfly4_mx fout tw m n fstride mm q =
      bfly4_single_body tw m (i * mm + j) (j * fstride) (j * (fstride * 2)) (j * (fstride * 3)) fout q"
    if "q = i * mm + j \<or> q = i * mm + j + m \<or> q = i * mm + j + 2 * m \<or> q = i * mm + j + 3 * m" for q
    using that by (auto simp: WJ_def)
  have m: "0 < m" using assms(4,5) by simp
  have t: "j * 2 * fstride = j * (fstride * 2)" "j * 3 * fstride = j * (fstride * 3)" by simp_all
  show "(kf_bfly4_mx fout tw m n fstride mm (i * mm + j),
            kf_bfly4_mx fout tw m n fstride mm (i * mm + j + m),
            kf_bfly4_mx fout tw m n fstride mm (i * mm + j + 2 * m),
            kf_bfly4_mx fout tw m n fstride mm (i * mm + j + 3 * m)) =
           radix4_combine (fout (i * mm + j))
             (cpx_mul (fout (i * mm + j + m)) (tw (j * fstride)))
             (cpx_mul (fout (i * mm + j + 2 * m)) (tw (j * 2 * fstride)))
             (cpx_mul (fout (i * mm + j + 3 * m)) (tw (j * 3 * fstride)))"
    unfolding t using m
    by (simp add: v bfly4_single_body_combine [OF assms(1)] split: prod.splits)
qed

theorem kf_bfly4_mx_positions_witness:
  "kf_bfly4_mx (\<lambda>k. KissCpx k (k + 1)) (\<lambda>k. KissCpx (k + 1) (2 * k)) 2 2 3 8 9 = KissCpx (- 234 :: int) 808 \<and>
   kf_bfly4_mx (\<lambda>k. KissCpx k (k + 1)) (\<lambda>k. KissCpx (k + 1) (2 * k)) 2 2 3 8 11 = KissCpx (- 230 :: int) (- 354) \<and>
   kf_bfly4_mx (\<lambda>k. KissCpx k (k + 1)) (\<lambda>k. KissCpx (k + 1) (2 * k)) 2 2 3 8 13 = KissCpx (98 :: int) (- 280) \<and>
   kf_bfly4_mx (\<lambda>k. KissCpx k (k + 1)) (\<lambda>k. KissCpx (k + 1) (2 * k)) 2 2 3 8 15 = KissCpx (402 :: int) (- 134) \<and>
   kf_bfly4_mx (\<lambda>k. KissCpx k (k + 1)) (\<lambda>k. KissCpx (k + 1) (2 * k)) 3 1 1 1 2 = KissCpx (- 106 :: int) 366 \<and>
   kf_bfly4_mx (\<lambda>k. KissCpx k (k + 1)) (\<lambda>k. KissCpx (k + 1) (2 * k)) 3 1 1 1 5 = KissCpx (- 144 :: int) (- 164) \<and>
   kf_bfly4_mx (\<lambda>k. KissCpx k (k + 1)) (\<lambda>k. KissCpx (k + 1) (2 * k)) 3 1 1 1 8 = KissCpx (46 :: int) (- 142) \<and>
   kf_bfly4_mx (\<lambda>k. KissCpx k (k + 1)) (\<lambda>k. KissCpx (k + 1) (2 * k)) 3 1 1 1 11 = KissCpx (212 :: int) (- 48)"
  using kf_bfly4_mx_positions [where 'a = int and i = 1 and n = 2 and j = 1 and m = 2 and mm = 8 and fstride = 3
      and fout = "\<lambda>k. KissCpx k (k + 1)" and tw = "\<lambda>k. KissCpx (k + 1) (2 * k)",
      THEN conjunct2, THEN conjunct2]
    kf_bfly4_mx_positions [where 'a = int and i = 0 and n = 1 and j = 2 and m = 3 and mm = 1 and fstride = 1
      and fout = "\<lambda>k. KissCpx k (k + 1)" and tw = "\<lambda>k. KissCpx (k + 1) (2 * k)",
      THEN conjunct2, THEN conjunct2]
  by (simp add: float_identities_def radix4_combine_def cpx_add_def cpx_sub_def cpx_mul_def
      swap_neg_second_def swap_neg_first_def Let_def)

end
